theory Spec2Isabelle
  imports Main "HOL-Library.Char_ord" "HOL-Library.List_Lexorder"
begin

section \<open>alignmentPolish: the driver \<open>main.py\<close>\<close>

text \<open>
  The driver finds candidate windows in a region of a chromosome, lists the candidate
  alleles of every window and optionally writes the list as a JSON file; a chromosome
  is split into overlapping segments that are handed to one process each.

  The modules \<open>CandidateFinder\<close>, \<open>BamHandler\<close>, \<open>FastaHandler\<close> and \<open>AlleleFinder\<close>
  are imported by the driver and are not part of it. They are parameters of the model
  (the record \<open>modules\<close>): every call of one of them may raise, so each returns a sum,
  and every call is logged in the order in which the driver makes it.
\<close>

subsection \<open>Errors, collaborators, the state of a run\<close>

datatype error =
    ZeroDivisionError
  | OverflowError
  | IndexError
  | ValueError
  | OSError string
  | FileExistsError string
  | FileNotFoundError string
  | IsADirectoryError string
  | TypeError
  | ModuleError string

type_synonym window = "string \<times> int \<times> int"

text \<open>
  The values the encoder meets: a dictionary is kept as the list of its items in
  insertion order. Floats are left out.
\<close>

datatype json =
    JNull
  | JBool bool
  | JInt int
  | JStr string
  | JArr "json list"
  | JObj "(string \<times> json) list"

text \<open>
  \<open>CandidateFinder\<close> stands for the four calls of lines 116 to 129 (the constructor,
  \<open>parse_reads\<close>, \<open>merge_positions\<close>, \<open>get_candidate_windows\<close>); \<open>AlleleFinder\<close> for the
  three calls of lines 139 to 143 (the constructor, \<open>generate_base_dictionaries\<close>,
  \<open>generate_candidate_allele_list\<close>). \<open>candidate_list_json\<close> is what \<open>ComplexEncoder.default\<close>
  makes of a candidate list: the value of its \<open>reprJSON\<close>, with the objects inside it
  replaced in the same way, or the \<open>TypeError\<close> of \<open>JSONEncoder.default\<close>.
\<close>

record ('bam, 'fasta, 'reads, 'seq, 'pile, 'cand) modules =
  BamHandler :: "string \<Rightarrow> error + 'bam"
  FastaHandler :: "string \<Rightarrow> error + 'fasta"
  get_reads :: "'bam \<Rightarrow> string \<Rightarrow> int \<Rightarrow> int \<Rightarrow> error + 'reads"
  get_pileupcolumns_aligned_to_a_region :: "'bam \<Rightarrow> string \<Rightarrow> int \<Rightarrow> int \<Rightarrow> error + 'pile"
  get_sequence :: "'fasta \<Rightarrow> string \<Rightarrow> int \<Rightarrow> int \<Rightarrow> error + 'seq"
  get_chr_sequence_length :: "'fasta \<Rightarrow> string \<Rightarrow> error + int"
  CandidateFinder :: "'reads \<Rightarrow> 'fasta \<Rightarrow> string \<Rightarrow> int \<Rightarrow> int \<Rightarrow> error + window list"
  AlleleFinder :: "string \<Rightarrow> int \<Rightarrow> int \<Rightarrow> 'pile \<Rightarrow> 'seq \<Rightarrow> error + 'cand"
  candidate_list_json :: "'cand \<Rightarrow> error + json"

datatype call =
    CallBamHandler string
  | CallFastaHandler string
  | CallGetReads string int int
  | CallGetPileupcolumns string int int
  | CallGetSequence string int int
  | CallGetChrSequenceLength string
  | CallCandidateFinder string int int
  | CallAlleleFinder string int int

text \<open>
  The object \<open>View\<close>. Its attribute \<open>chromosome_name\<close> is the field \<open>view_chromosome_name\<close>
  here, the name \<open>chromosome_name\<close> being the field of the region object below.
\<close>

record ('bam, 'fasta) View =
  bam_handler :: 'bam
  fasta_handler :: 'fasta
  output_dir :: string
  view_chromosome_name :: string

text \<open>
  A started process: \<open>Process(target=view.parse_region, args=(start, end, json_out))\<close>
  followed by \<open>p.start()\<close>. The parent keeps no handle on it.
\<close>

record ('bam, 'fasta) Process =
  target :: "('bam, 'fasta) View"
  args :: "int \<times> int \<times> bool"

text \<open>
  What a run can observe and change: the directories and files of the file system, the
  calls made to the collaborators so far, and the processes started so far. The file
  system has a longest name it accepts for one entry and a bound on the length of a path
  (\<open>NAME_MAX\<close> and \<open>PATH_MAX\<close>, 255 and 4096 on Linux).
\<close>

record ('bam, 'fasta) world =
  dirs :: "string set"
  files :: "string \<rightharpoonup> string"
  name_max :: nat
  path_max :: nat
  calls :: "call list"
  started :: "('bam, 'fasta) Process list"

definition logc :: "call \<Rightarrow> ('bam, 'fasta) world \<Rightarrow> ('bam, 'fasta) world" where
  "logc c w = w\<lparr>calls := calls w @ [c]\<rparr>"

subsection \<open>\<open>View.__init__\<close>\<close>

definition View_init ::
  "('bam, 'fasta, 'reads, 'seq, 'pile, 'cand) modules \<Rightarrow> string \<Rightarrow> string \<Rightarrow> string \<Rightarrow> string \<Rightarrow>
   ('bam, 'fasta) world \<Rightarrow> (error + ('bam, 'fasta) View) \<times> ('bam, 'fasta) world" where
  "View_init m chromosome bam_file_path reference_file_path output_file_path w =
     (let w1 = logc (CallBamHandler bam_file_path) w in
      case BamHandler m bam_file_path of
        Inl e \<Rightarrow> (Inl e, w1)
      | Inr b \<Rightarrow>
          (let w2 = logc (CallFastaHandler reference_file_path) w1 in
           case FastaHandler m reference_file_path of
             Inl e \<Rightarrow> (Inl e, w2)
           | Inr f \<Rightarrow>
               (Inr \<lparr>bam_handler = b, fasta_handler = f, output_dir = output_file_path,
                     view_chromosome_name = chromosome\<rparr>, w2)))"

subsection \<open>\<open>do_parallel\<close>\<close>

text \<open>
  \<open>whole_length / max_threads\<close> is the true division of two integers: it raises when
  the divisor is 0, and otherwise gives the float nearest to the exact quotient, ties going
  to the even mantissa, or raises \<open>OverflowError\<close> when that float would be \<open>2 ^ 1024\<close> or
  more. A float is kept here as a mantissa \<open>m\<close> and an exponent \<open>e\<close>, standing for
  \<open>m * 2 ^ e\<close>: a mantissa has at most 53 bits, and the exponent is at least \<open>- 1074\<close>.
\<close>

text \<open>\<open>int.bit_length\<close>.\<close>

fun bit_length :: "nat \<Rightarrow> nat" where
  "bit_length n = (if n = 0 then 0 else Suc (bit_length (n div 2)))"

declare bit_length.simps [simp del]

text \<open>The integer nearest to \<open>a / b\<close>, the even one of two that are equally near.\<close>

definition round_half_even :: "nat \<Rightarrow> nat \<Rightarrow> nat" where
  "round_half_even a b =
     (let q = a div b; r = a mod b
      in if 2 * r < b then q else if b < 2 * r then q + 1 else if even q then q else q + 1)"

text \<open>
  The binary logarithm of \<open>a / b\<close>, rounded down: it is the difference of the bit lengths
  or one less.
\<close>

definition floor_log2 :: "nat \<Rightarrow> nat \<Rightarrow> int" where
  "floor_log2 a b =
     (let k = int (bit_length a) - int (bit_length b)
      in if b * 2 ^ nat k \<le> a * 2 ^ nat (- k) then k else k - 1)"

text \<open>The exponent of the float for \<open>a / b\<close>, the one that leaves 53 bits to the mantissa.\<close>

definition float_exponent :: "nat \<Rightarrow> nat \<Rightarrow> int" where
  "float_exponent a b = max (floor_log2 a b - 52) (- 1074)"

text \<open>The float nearest to \<open>a / b\<close> for natural numbers \<open>a\<close> and \<open>b > 0\<close>.\<close>

definition float_quotient :: "nat \<Rightarrow> nat \<Rightarrow> nat \<times> int" where
  "float_quotient a b =
     (let e = float_exponent a b in (round_half_even (a * 2 ^ nat (- e)) (b * 2 ^ nat e), e))"

text \<open>
  \<open>int(math.ceil(whole_length / max_threads))\<close>: the quotient as above, with the sign of the
  two operands, and \<open>math.ceil\<close> of that float, which is an exact integer.
\<close>

definition ceil_div :: "int \<Rightarrow> int \<Rightarrow> error + int" where
  "ceil_div whole_length max_threads =
     (if max_threads = 0 then Inl ZeroDivisionError
      else
        (case float_quotient (nat \<bar>whole_length\<bar>) (nat \<bar>max_threads\<bar>) of
           (m, e) \<Rightarrow>
             if 2 ^ 1024 \<le> m * 2 ^ nat e then Inl OverflowError
             else if (whole_length < 0) = (max_threads < 0)
               then Inr (- ((- int (m * 2 ^ nat e)) div 2 ^ nat (- e)))
               else Inr (- (int (m * 2 ^ nat e) div 2 ^ nat (- e)))))"

text \<open>The body of the loop \<open>for i in range(max_threads)\<close>, over the remaining indices.\<close>

fun do_parallel_loop ::
  "('bam, 'fasta, 'reads, 'seq, 'pile, 'cand) modules \<Rightarrow> string \<Rightarrow> string \<Rightarrow> string \<Rightarrow> bool \<Rightarrow>
   string \<Rightarrow> int \<Rightarrow> int list \<Rightarrow> ('bam, 'fasta) world \<Rightarrow> (error + unit) \<times> ('bam, 'fasta) world" where
  "do_parallel_loop m chr_name bam_file ref_file json_out out_dir each_segment_length [] w =
     (Inr (), w)"
| "do_parallel_loop m chr_name bam_file ref_file json_out out_dir each_segment_length (i # is) w =
     (case View_init m chr_name bam_file ref_file out_dir w of
        (Inl e, w1) \<Rightarrow> (Inl e, w1)
      | (Inr view, w1) \<Rightarrow>
          (let start_position = i * each_segment_length;
               end_position = (i + 1) * each_segment_length + 1000;
               p = \<lparr>target = view, args = (start_position, end_position, json_out)\<rparr>
           in do_parallel_loop m chr_name bam_file ref_file json_out out_dir each_segment_length is
                (w1\<lparr>started := started w1 @ [p]\<rparr>)))"

text \<open>\<open>range(n)\<close> for an integer \<open>n\<close>: empty when \<open>n\<close> is not positive.\<close>

definition range_py :: "int \<Rightarrow> int list" where
  "range_py n = map int [0..<nat n]"

definition do_parallel ::
  "('bam, 'fasta, 'reads, 'seq, 'pile, 'cand) modules \<Rightarrow> string \<Rightarrow> string \<Rightarrow> string \<Rightarrow> bool \<Rightarrow>
   string \<Rightarrow> int \<Rightarrow> ('bam, 'fasta) world \<Rightarrow> (error + unit) \<times> ('bam, 'fasta) world" where
  "do_parallel m chr_name bam_file ref_file json_out out_dir max_threads w =
     (let w1 = logc (CallFastaHandler ref_file) w in
      case FastaHandler m ref_file of
        Inl e \<Rightarrow> (Inl e, w1)
      | Inr fh \<Rightarrow>
          (let w2 = logc (CallGetChrSequenceLength chr_name) w1 in
           case get_chr_sequence_length m fh chr_name of
             Inl e \<Rightarrow> (Inl e, w2)
           | Inr whole_length \<Rightarrow>
               (case ceil_div whole_length max_threads of
                  Inl e \<Rightarrow> (Inl e, w2)
                | Inr each_segment_length \<Rightarrow>
                    do_parallel_loop m chr_name bam_file ref_file json_out out_dir
                      each_segment_length (range_py max_threads) w2)))"

subsection \<open>The file system, as far as the driver uses it\<close>

text \<open>
  Directories are kept by name without trailing separators; the empty name is the
  directory a relative path starts from and always exists. A path is a string of bytes,
  as the operating system receives it. The components \<open>.\<close> and \<open>..\<close>, repeated
  separators, links and permissions are not interpreted.
\<close>

definition strip_slash :: "string \<Rightarrow> string" where
  "strip_slash p = rev (dropWhile (\<lambda>c. c = CHR ''/'') (rev p))"

definition dirname :: "string \<Rightarrow> string" where
  "dirname p = strip_slash (rev (dropWhile (\<lambda>c. c \<noteq> CHR ''/'') (rev (strip_slash p))))"

definition dir_exists :: "('bam, 'fasta) world \<Rightarrow> string \<Rightarrow> bool" where
  "dir_exists w d = (d = [] \<or> d \<in> dirs w)"

text \<open>The names between the separators of a path.\<close>

fun split_path :: "string \<Rightarrow> string list" where
  "split_path [] = [[]]"
| "split_path (c # cs) =
     (if c = CHR ''/'' then [] # split_path cs
      else (case split_path cs of [] \<Rightarrow> [[c]] | n # ns \<Rightarrow> (c # n) # ns))"

text \<open>
  A path that no call accepts: one with a NUL character is refused by Python before the
  system is asked (\<open>ValueError\<close>), one that is too long or has a name that is too long
  by the system (\<open>OSError\<close>, \<open>ENAMETOOLONG\<close>).
\<close>

definition path_error :: "('bam, 'fasta) world \<Rightarrow> string \<Rightarrow> error option" where
  "path_error w p =
     (if CHR 0x00 \<in> set p then Some ValueError
      else if path_max w \<le> length p \<or> list_ex (\<lambda>n. name_max w < length n) (split_path p)
        then Some (OSError p)
      else None)"

text \<open>\<open>os.path.exists\<close>, which answers \<open>False\<close> for a path that cannot be looked up.\<close>

definition path_exists :: "('bam, 'fasta) world \<Rightarrow> string \<Rightarrow> bool" where
  "path_exists w p =
     (p \<noteq> [] \<and> path_error w p = None \<and> (dir_exists w (strip_slash p) \<or> p \<in> dom (files w)))"

text \<open>\<open>os.mkdir\<close>: the entry must not exist, the directory holding it must.\<close>

definition mkdir :: "('bam, 'fasta) world \<Rightarrow> string \<Rightarrow> error + ('bam, 'fasta) world" where
  "mkdir w p =
     (if p = [] then Inl (FileNotFoundError p)
      else case path_error w p of
        Some e \<Rightarrow> Inl e
      | None \<Rightarrow>
          if path_exists w p \<or> strip_slash p \<in> dom (files w) then Inl (FileExistsError p)
          else if \<not> dir_exists w (dirname p) then Inl (FileNotFoundError p)
          else Inr (w\<lparr>dirs := insert (strip_slash p) (dirs w)\<rparr>))"

text \<open>\<open>open(p, 'w')\<close>: creates the file or empties it; the directory holding it must exist.\<close>

definition open_w :: "('bam, 'fasta) world \<Rightarrow> string \<Rightarrow> error + ('bam, 'fasta) world" where
  "open_w w p =
     (if p = [] then Inl (FileNotFoundError p)
      else case path_error w p of
        Some e \<Rightarrow> Inl e
      | None \<Rightarrow>
          if strip_slash p \<noteq> p \<or> p \<in> dirs w then Inl (IsADirectoryError p)
          else if \<not> dir_exists w (dirname p) then Inl (FileNotFoundError p)
          else Inr (w\<lparr>files := (files w)(p \<mapsto> [])\<rparr>))"

definition file_write :: "('bam, 'fasta) world \<Rightarrow> string \<Rightarrow> string \<Rightarrow> ('bam, 'fasta) world" where
  "file_write w p s =
     w\<lparr>files := (files w)(p \<mapsto> (case files w p of None \<Rightarrow> [] | Some old \<Rightarrow> old) @ s)\<rparr>"

subsection \<open>\<open>str\<close> of an integer\<close>

definition digit_char :: "nat \<Rightarrow> char" where
  "digit_char d = ''0123456789abcdef'' ! (d mod 16)"

fun str_nat :: "nat \<Rightarrow> string" where
  "str_nat n = (if n < 10 then [digit_char n] else str_nat (n div 10) @ [digit_char (n mod 10)])"

declare str_nat.simps [simp del]

definition str_int :: "int \<Rightarrow> string" where
  "str_int i = (if i < 0 then CHR ''-'' # str_nat (nat (- i)) else str_nat (nat i))"

subsection \<open>\<open>json.dumps(..., indent=4, sort_keys=True)\<close>\<close>

text \<open>
  With \<open>sort_keys=True\<close> the encoder writes the items of every dictionary in the order
  of \<open>sorted(dct.items())\<close>. The model sorts first and writes afterwards.
\<close>

fun sort_keys_json :: "json \<Rightarrow> json" where
  "sort_keys_json (JArr xs) = JArr (map sort_keys_json xs)"
| "sort_keys_json (JObj kvs) =
     JObj (sort_key fst (map (\<lambda>kv. (fst kv, sort_keys_json (snd kv))) kvs))"
| "sort_keys_json j = j"

text \<open>
  A string with \<open>ensure_ascii\<close>: the quote and the backslash are escaped, the control
  characters that have a short escape get it, and every other character outside the
  printable ASCII range is written as \<open>\u00xx\<close> (a character is one byte here).
\<close>

definition escape_char :: "char \<Rightarrow> string" where
  "escape_char c =
     (if c = CHR 0x22 then [CHR 0x5C, CHR 0x22]
      else if c = CHR 0x5C then [CHR 0x5C, CHR 0x5C]
      else if c = CHR 0x0A then [CHR 0x5C, CHR ''n'']
      else if c = CHR 0x0D then [CHR 0x5C, CHR ''r'']
      else if c = CHR 0x09 then [CHR 0x5C, CHR ''t'']
      else if c = CHR 0x08 then [CHR 0x5C, CHR ''b'']
      else if c = CHR 0x0C then [CHR 0x5C, CHR ''f'']
      else if (of_char c :: nat) < 32 \<or> 126 < (of_char c :: nat)
        then [CHR 0x5C, CHR ''u'', CHR ''0'', CHR ''0'',
              digit_char ((of_char c :: nat) div 16), digit_char ((of_char c :: nat) mod 16)]
      else [c])"

definition encode_string :: "string \<Rightarrow> string" where
  "encode_string s = [CHR 0x22] @ concat (map escape_char s) @ [CHR 0x22]"

definition newline_indent :: "nat \<Rightarrow> string" where
  "newline_indent level = CHR 0x0A # replicate (4 * level) CHR '' ''"

fun join_with :: "string \<Rightarrow> string list \<Rightarrow> string" where
  "join_with sep [] = []"
| "join_with sep [x] = x"
| "join_with sep (x # y # ys) = x @ sep @ join_with sep (y # ys)"

fun encode :: "nat \<Rightarrow> json \<Rightarrow> string" where
  "encode level JNull = ''null''"
| "encode level (JBool b) = (if b then ''true'' else ''false'')"
| "encode level (JInt i) = str_int i"
| "encode level (JStr s) = encode_string s"
| "encode level (JArr xs) =
     (if xs = [] then ''[]''
      else ''['' @ newline_indent (level + 1)
           @ join_with (CHR '','' # newline_indent (level + 1)) (map (encode (level + 1)) xs)
           @ newline_indent level @ '']'')"
| "encode level (JObj kvs) =
     (if kvs = [] then ''{}''
      else ''{'' @ newline_indent (level + 1)
           @ join_with (CHR '','' # newline_indent (level + 1))
               (map (\<lambda>kv. encode_string (fst kv) @ '': '' @ encode (level + 1) (snd kv)) kvs)
           @ newline_indent level @ ''}'')"

definition dumps :: "json \<Rightarrow> string" where
  "dumps j = encode 0 (sort_keys_json j)"

subsection \<open>\<open>AllCandidatesInRegion\<close>\<close>

record 'cand AllCandidatesInRegion =
  chromosome_name :: string
  start_position :: int
  end_position :: int
  all_candidates :: "'cand list"

definition AllCandidatesInRegion_init :: "string \<Rightarrow> int \<Rightarrow> int \<Rightarrow> 'cand AllCandidatesInRegion" where
  "AllCandidatesInRegion_init chromosome start end =
     \<lparr>chromosome_name = chromosome, start_position = start, end_position = end,
      all_candidates = []\<rparr>"

definition add_candidate_to_list ::
  "'cand AllCandidatesInRegion \<Rightarrow> 'cand \<Rightarrow> 'cand AllCandidatesInRegion" where
  "add_candidate_to_list r alignment_candidates_object =
     r\<lparr>all_candidates := all_candidates r @ [alignment_candidates_object]\<rparr>"

text \<open>The candidate lists as the encoder sees them, the first failure ending the run.\<close>

fun candidates_json ::
  "('bam, 'fasta, 'reads, 'seq, 'pile, 'cand) modules \<Rightarrow> 'cand list \<Rightarrow> error + json list" where
  "candidates_json m [] = Inr []"
| "candidates_json m (c # cs) =
     (case candidate_list_json m c of
        Inl e \<Rightarrow> Inl e
      | Inr j \<Rightarrow> (case candidates_json m cs of Inl e \<Rightarrow> Inl e | Inr js \<Rightarrow> Inr (j # js)))"

text \<open>
  \<open>reprJSON\<close> builds the dictionary with its keys in the order of the keyword arguments;
  the model gives it with the candidate lists already encoded.
\<close>

definition reprJSON ::
  "('bam, 'fasta, 'reads, 'seq, 'pile, 'cand) modules \<Rightarrow> 'cand AllCandidatesInRegion \<Rightarrow> error + json" where
  "reprJSON m r =
     (case candidates_json m (all_candidates r) of
        Inl e \<Rightarrow> Inl e
      | Inr js \<Rightarrow>
          Inr (JObj [(''chromosome_name'', JStr (chromosome_name r)),
                     (''start_position'', JInt (start_position r)),
                     (''end_position'', JInt (end_position r)),
                     (''all_candidates'', JArr js)]))"

subsection \<open>\<open>View.write_json\<close>\<close>

text \<open>The name of the file inside \<open>json_output/\<close> (lines 103 and 104).\<close>

definition json_file_name :: "string \<Rightarrow> int \<Rightarrow> int \<Rightarrow> string" where
  "json_file_name chromosome start end =
     ''Candidates'' @ ''_'' @ chromosome @ ''_'' @ str_int start @ ''_'' @ str_int end @ ''.json''"

text \<open>
  The region object is passed by reference, so the model returns it next to the new
  state of the world: what the caller holds after the call.
\<close>

definition write_json ::
  "('bam, 'fasta, 'reads, 'seq, 'pile, 'cand) modules \<Rightarrow> ('bam, 'fasta) View \<Rightarrow> int \<Rightarrow> int \<Rightarrow>
   'cand AllCandidatesInRegion \<Rightarrow> ('bam, 'fasta) world \<Rightarrow>
   (error + unit) \<times> 'cand AllCandidatesInRegion \<times> ('bam, 'fasta) world" where
  "write_json m self start end all_candidate_lists w =
     (case (if \<not> path_exists w (output_dir self @ ''json_output/'')
            then mkdir w (output_dir self @ ''json_output/'') else Inr w) of
        Inl e \<Rightarrow> (Inl e, all_candidate_lists, w)
      | Inr w1 \<Rightarrow>
          (let json_file = output_dir self @ ''json_output/''
                             @ json_file_name (view_chromosome_name self) start end in
           case open_w w1 json_file of
             Inl e \<Rightarrow> (Inl e, all_candidate_lists, w1)
           | Inr w2 \<Rightarrow>
               (case reprJSON m all_candidate_lists of
                  Inl e \<Rightarrow> (Inl e, all_candidate_lists, w2)
                | Inr j \<Rightarrow> (Inr (), all_candidate_lists, file_write w2 json_file (dumps j)))))"

subsection \<open>\<open>View.parse_region\<close>\<close>

text \<open>The loop over the candidate windows (lines 133 to 148).\<close>

fun parse_windows ::
  "('bam, 'fasta, 'reads, 'seq, 'pile, 'cand) modules \<Rightarrow> ('bam, 'fasta) View \<Rightarrow> window list \<Rightarrow>
   'cand AllCandidatesInRegion \<Rightarrow> ('bam, 'fasta) world \<Rightarrow>
   (error + 'cand AllCandidatesInRegion) \<times> ('bam, 'fasta) world" where
  "parse_windows m self [] all_candidate_lists w = (Inr all_candidate_lists, w)"
| "parse_windows m self ((chr_name, window_start, window_end) # rest) all_candidate_lists w =
     (let w1 = logc (CallGetSequence chr_name window_start (window_end + 1)) w in
      case get_sequence m (fasta_handler self) chr_name window_start (window_end + 1) of
        Inl e \<Rightarrow> (Inl e, w1)
      | Inr reference_sequence \<Rightarrow>
          (let w2 = logc (CallGetPileupcolumns chr_name window_start (window_end + 1)) w1 in
           case get_pileupcolumns_aligned_to_a_region m (bam_handler self) chr_name
                  window_start (window_end + 1) of
             Inl e \<Rightarrow> (Inl e, w2)
           | Inr pileup_columns \<Rightarrow>
               (let w3 = logc (CallAlleleFinder chr_name window_start window_end) w2 in
                case AlleleFinder m chr_name window_start window_end pileup_columns
                       reference_sequence of
                  Inl e \<Rightarrow> (Inl e, w3)
                | Inr candidate_list \<Rightarrow>
                    parse_windows m self rest
                      (add_candidate_to_list all_candidate_lists candidate_list) w3)))"

text \<open>
  \<open>parse_region\<close> returns nothing; the model returns the object \<open>all_candidate_lists\<close> as
  it is when the method ends, which is the object handed to \<open>write_json\<close>. The two debug
  switches are constants that are off, so their branches are left out.
\<close>

definition parse_region ::
  "('bam, 'fasta, 'reads, 'seq, 'pile, 'cand) modules \<Rightarrow> ('bam, 'fasta) View \<Rightarrow> int \<Rightarrow> int \<Rightarrow> bool \<Rightarrow>
   ('bam, 'fasta) world \<Rightarrow> (error + 'cand AllCandidatesInRegion) \<times> ('bam, 'fasta) world" where
  "parse_region m self start end json_out w =
     (let w1 = logc (CallGetReads (view_chromosome_name self) start end) w in
      case get_reads m (bam_handler self) (view_chromosome_name self) start end of
        Inl e \<Rightarrow> (Inl e, w1)
      | Inr reads \<Rightarrow>
          (let w2 = logc (CallCandidateFinder (view_chromosome_name self) start end) w1 in
           case CandidateFinder m reads (fasta_handler self) (view_chromosome_name self)
                  start end of
             Inl e \<Rightarrow> (Inl e, w2)
           | Inr candidate_windows \<Rightarrow>
               (case parse_windows m self candidate_windows
                       (AllCandidatesInRegion_init (view_chromosome_name self) start end) w2 of
                  (Inl e, w3) \<Rightarrow> (Inl e, w3)
                | (Inr all_candidate_lists, w3) \<Rightarrow>
                    (if json_out then
                       (case write_json m self start end all_candidate_lists w3 of
                          (Inl e, r, w4) \<Rightarrow> (Inl e, w4)
                        | (Inr u, r, w4) \<Rightarrow> (Inr r, w4))
                     else (Inr all_candidate_lists, w3)))))"

subsection \<open>\<open>View.test\<close> and the main program\<close>

definition View_test ::
  "('bam, 'fasta, 'reads, 'seq, 'pile, 'cand) modules \<Rightarrow> ('bam, 'fasta) View \<Rightarrow> bool \<Rightarrow>
   ('bam, 'fasta) world \<Rightarrow> (error + 'cand AllCandidatesInRegion) \<times> ('bam, 'fasta) world" where
  "View_test m self json_out w = parse_region m self 100000 200000 json_out w"

text \<open>
  The parsed command line, each option \<open>x\<close> as the field \<open>flag_x\<close>. Parsing itself is left
  to \<open>argparse\<close>.
\<close>

record FLAGS =
  flag_ref :: string
  flag_bam :: string
  flag_chromosome_name :: string
  flag_max_threads :: int
  flag_test :: bool
  flag_json :: bool
  flag_output_dir :: string

text \<open>
  The main program gives back the region object of the test run, or nothing when it
  went through \<open>do_parallel\<close>.
\<close>

definition main ::
  "('bam, 'fasta, 'reads, 'seq, 'pile, 'cand) modules \<Rightarrow> FLAGS \<Rightarrow> ('bam, 'fasta) world \<Rightarrow>
   (error + 'cand AllCandidatesInRegion option) \<times> ('bam, 'fasta) world" where
  "main m F w =
     (if flag_output_dir F = [] then (Inl IndexError, w)
      else
        (let out_dir = (if last (flag_output_dir F) \<noteq> CHR ''/'' then flag_output_dir F @ ''/''
                        else flag_output_dir F) in
         case (if \<not> path_exists w out_dir then mkdir w out_dir else Inr w) of
           Inl e \<Rightarrow> (Inl e, w)
         | Inr w1 \<Rightarrow>
             (case View_init m (flag_chromosome_name F) (flag_bam F) (flag_ref F) out_dir w1 of
                (Inl e, w2) \<Rightarrow> (Inl e, w2)
              | (Inr view, w2) \<Rightarrow>
                  (if flag_test F then
                     (case View_init m (flag_chromosome_name F) (flag_bam F) (flag_ref F)
                             out_dir w2 of
                        (Inl e, w3) \<Rightarrow> (Inl e, w3)
                      | (Inr view', w3) \<Rightarrow>
                          (case View_test m view' (flag_json F) w3 of
                             (Inl e, w4) \<Rightarrow> (Inl e, w4)
                           | (Inr r, w4) \<Rightarrow> (Inr (Some r), w4)))
                   else
                     (case do_parallel m (flag_chromosome_name F) (flag_bam F) (flag_ref F)
                             (flag_json F) out_dir (flag_max_threads F) w2 of
                        (Inl e, w3) \<Rightarrow> (Inl e, w3)
                      | (Inr u, w3) \<Rightarrow> (Inr None, w3))))))"

subsection \<open>Observations used in the statements\<close>

text \<open>The processes started, and the collaborator calls made, between two states.\<close>

definition started_by :: "('bam, 'fasta) world \<Rightarrow> ('bam, 'fasta) world \<Rightarrow> ('bam, 'fasta) Process list" where
  "started_by w w' = drop (length (started w)) (started w')"

definition calls_by :: "('bam, 'fasta) world \<Rightarrow> ('bam, 'fasta) world \<Rightarrow> call list" where
  "calls_by w w' = drop (length (calls w)) (calls w')"

text \<open>The errors of the file system operations.\<close>

definition fs_error :: "error \<Rightarrow> bool" where
  "fs_error e =
     (e = ValueError \<or>
      (\<exists>p. e = OSError p \<or> e = FileExistsError p \<or> e = FileNotFoundError p \<or>
           e = IsADirectoryError p))"

text \<open>The collaborator calls of one turn of the loop over the windows.\<close>

definition wcalls :: "window \<Rightarrow> call list" where
  "wcalls x = (case x of (c, s, e) \<Rightarrow>
     [CallGetSequence c s (e + 1), CallGetPileupcolumns c s (e + 1), CallAlleleFinder c s e])"

text \<open>The collaborator calls that only the work on a region makes after reading the reads.\<close>

definition region_call :: "call \<Rightarrow> bool" where
  "region_call x = (case x of CallCandidateFinder c s e \<Rightarrow> True | CallGetSequence c s e \<Rightarrow> True
     | CallGetPileupcolumns c s e \<Rightarrow> True | CallAlleleFinder c s e \<Rightarrow> True | _ \<Rightarrow> False)"

text \<open>
  A candidate list is the one made for a window from the data of its span when the
  reference sequence and the pileup columns requested from the start of the window to one
  past its end are both given, and the allele finder makes that list of them.
\<close>

definition from_span ::
  "('bam, 'fasta, 'reads, 'seq, 'pile, 'cand) modules \<Rightarrow> ('bam, 'fasta) View \<Rightarrow> window \<Rightarrow>
   'cand \<Rightarrow> bool" where
  "from_span m v x cand =
     (\<exists>sq pl.
        get_sequence m (fasta_handler v) (fst x) (fst (snd x)) (snd (snd x) + 1) = Inr sq \<and>
        get_pileupcolumns_aligned_to_a_region m (bam_handler v) (fst x) (fst (snd x))
          (snd (snd x) + 1) = Inr pl \<and>
        AlleleFinder m (fst x) (fst (snd x)) (snd (snd x)) pl sq = Inr cand)"

text \<open>A string between double quotes.\<close>

definition quoted :: "string \<Rightarrow> string" where
  "quoted s = CHR 0x22 # s @ [CHR 0x22]"

text \<open>Every dictionary of a JSON value has its keys in ascending order.\<close>

fun keys_sorted :: "json \<Rightarrow> bool" where
  "keys_sorted (JArr xs) = list_all keys_sorted xs"
| "keys_sorted (JObj kvs) = (sorted (map fst kvs) \<and> list_all (\<lambda>kv. keys_sorted (snd kv)) kvs)"
| "keys_sorted j = True"

text \<open>
  Collaborators to run the model on: every handler opens, the chromosome has the given
  length, the window detector returns the given windows, a candidate list is the window
  it was made for. In \<open>unavailable_modules\<close> the alignment file cannot be read. The world
  they run in has the limits of Linux.
\<close>

definition sample_modules ::
  "int \<Rightarrow> window list \<Rightarrow> (unit, unit, unit, string, string, window) modules" where
  "sample_modules len windows =
     \<lparr>BamHandler = (\<lambda>p. Inr ()),
      FastaHandler = (\<lambda>p. Inr ()),
      get_reads = (\<lambda>b c s e. Inr ()),
      get_pileupcolumns_aligned_to_a_region = (\<lambda>b c s e. Inr ''pileup''),
      get_sequence = (\<lambda>f c s e. Inr ''ACGT''),
      get_chr_sequence_length = (\<lambda>f c. Inr len),
      CandidateFinder = (\<lambda>r f c s e. Inr windows),
      AlleleFinder = (\<lambda>c s e p q. Inr (c, s, e)),
      candidate_list_json = (\<lambda>x. Inr (JObj [(''window_start'', JInt (fst (snd x))),
                                              (''window_end'', JInt (snd (snd x))),
                                              (''chromosome_name'', JStr (fst x))]))\<rparr>"

definition unavailable_modules ::
  "int \<Rightarrow> (unit, unit, unit, string, string, window) modules" where
  "unavailable_modules len =
     (sample_modules len [])\<lparr>get_reads := (\<lambda>b c s e. Inl (ModuleError ''bam''))\<rparr>"

definition sample_world :: "string set \<Rightarrow> (unit, unit) world" where
  "sample_world ds =
     \<lparr>dirs = ds, files = Map.empty, name_max = 255, path_max = 4096, calls = [], started = []\<rparr>"

section \<open>Properties\<close>

subsection \<open>Auxiliary facts\<close>

lemma bit_length_0 [simp]: "bit_length 0 = 0"
  by (simp add: bit_length.simps)

lemma bit_length_pos: "0 < n \<Longrightarrow> 0 < bit_length n"
  by (subst bit_length.simps) simp

lemma bit_length_upper: "n < 2 ^ bit_length n"
proof (induction n rule: bit_length.induct)
  case (1 n)
  show ?case
  proof (cases "n = 0")
    case True
    then show ?thesis by simp
  next
    case False
    from 1 [OF False] have "n div 2 < 2 ^ bit_length (n div 2)" .
    then have "n < 2 * 2 ^ bit_length (n div 2)" by linarith
    then show ?thesis using False by (subst bit_length.simps) simp
  qed
qed

lemma bit_length_lower: "0 < n \<Longrightarrow> 2 ^ (bit_length n - 1) \<le> n"
proof (induction n rule: bit_length.induct)
  case (1 n)
  then have n: "n \<noteq> 0" by simp
  show ?case
  proof (cases "n div 2 = 0")
    case True
    then have "bit_length n = 1" using n by (subst bit_length.simps) simp
    then show ?thesis using 1(2) by simp
  next
    case False
    then have "0 < n div 2" by simp
    from 1(1) [OF n this] have ih: "2 ^ (bit_length (n div 2) - 1) \<le> n div 2" .
    have "bit_length n - 1 = Suc (bit_length (n div 2) - 1)"
      using n bit_length_pos [OF \<open>0 < n div 2\<close>] by (subst bit_length.simps) simp
    then show ?thesis using ih by simp
  qed
qed

lemma bit_length_le: "n < 2 ^ k \<Longrightarrow> bit_length n \<le> k"
proof (cases "n = 0")
  case True
  then show ?thesis by simp
next
  case False
  assume lt: "n < 2 ^ k"
  from False have "0 < n" by simp
  then have "2 ^ (bit_length n - 1) \<le> n" by (rule bit_length_lower)
  then have "(2::nat) ^ (bit_length n - 1) < 2 ^ k" using lt by (rule le_less_trans)
  then have "bit_length n - 1 < k" by (simp only: power_strict_increasing_iff rel_simps)
  then show ?thesis by simp
qed

lemma rhe_le:
  assumes "0 < b" and "x \<le> y * b"
  shows "round_half_even x b \<le> y"
proof -
  define q where "q = x div b"
  define r where "r = x mod b"
  have x: "x = q * b + r" by (simp add: q_def r_def)
  have rhe: "round_half_even x b =
      (if 2 * r < b then q else if b < 2 * r then q + 1 else if even q then q else q + 1)"
    by (simp add: round_half_even_def Let_def q_def r_def)
  have qy: "q \<le> y" unfolding q_def using assms by (metis div_le_mono div_mult_self_is_m)
  show ?thesis
  proof (cases "q = y")
    case True
    then have "r = 0" using x assms(2) by simp
    then show ?thesis using True assms(1) by (simp add: rhe)
  next
    case False
    then have "q + 1 \<le> y" using qy by simp
    then show ?thesis by (simp add: rhe)
  qed
qed

lemma rhe_ge:
  assumes "0 < b" and "(2 * y + 1) * b < 2 * x"
  shows "y + 1 \<le> round_half_even x b"
proof -
  define q where "q = x div b"
  define r where "r = x mod b"
  have x: "x = q * b + r" by (simp add: q_def r_def)
  have r: "r < b" using assms(1) by (simp add: r_def)
  have rhe: "round_half_even x b =
      (if 2 * r < b then q else if b < 2 * r then q + 1 else if even q then q else q + 1)"
    by (simp add: round_half_even_def Let_def q_def r_def)
  show ?thesis
  proof (cases "y + 1 \<le> q")
    case True
    then show ?thesis by (simp add: rhe)
  next
    case False
    then have qy: "q \<le> y" by simp
    have a: "(2 * y + 1) * b < 2 * (q * b) + 2 * r" using assms(2) x by simp
    have "q * b \<le> y * b" using qy by simp
    then have "(2 * q + 1) * b \<le> (2 * y + 1) * b" by (simp add: algebra_simps)
    with a have "(2 * q + 1) * b < 2 * (q * b) + 2 * r" by linarith
    then have br: "b < 2 * r" by (simp add: algebra_simps)
    from a r have "(2 * y + 1) * b < 2 * (q * b) + 2 * b" by linarith
    then have "(2 * y + 1) * b < (2 * q + 2) * b" by (simp add: algebra_simps)
    then have "2 * y + 1 < 2 * q + 2" by (simp only: mult_less_cancel2)
    then have "y \<le> q" by simp
    then show ?thesis using br by (simp add: rhe)
  qed
qed

lemma pow_shift:
  assumes "x \<le> y"
  shows "(2::nat) ^ nat x * 2 ^ nat (- y) * 2 ^ nat (y - x) = 2 ^ nat y * 2 ^ nat (- x)"
proof -
  have "nat x + nat (- y) + nat (y - x) = nat y + nat (- x)" using assms by linarith
  then have "(2::nat) ^ (nat x + nat (- y) + nat (y - x)) = 2 ^ (nat y + nat (- x))" by simp
  then show ?thesis by (simp only: power_add)
qed

lemma scale_le:
  assumes xy: "x \<le> y" and le: "b * 2 ^ nat y \<le> a * 2 ^ nat (- y)"
  shows "b * 2 ^ nat x * 2 ^ nat (y - x) \<le> (a::nat) * 2 ^ nat (- x)"
proof -
  have "b * 2 ^ nat y * 2 ^ nat (- x) \<le> a * 2 ^ nat (- y) * 2 ^ nat (- x)"
    using le by simp
  moreover have "b * 2 ^ nat y * 2 ^ nat (- x) = (b * 2 ^ nat x * 2 ^ nat (y - x)) * 2 ^ nat (- y)"
    using pow_shift [OF xy] by (simp add: mult_ac)
  moreover have "a * 2 ^ nat (- y) * 2 ^ nat (- x) = (a * 2 ^ nat (- x)) * 2 ^ nat (- y)"
    by (simp add: mult_ac)
  ultimately have "(b * 2 ^ nat x * 2 ^ nat (y - x)) * 2 ^ nat (- y) \<le> (a * 2 ^ nat (- x)) * 2 ^ nat (- y)"
    by simp
  then show ?thesis by (simp only: mult_le_cancel2) simp
qed

lemma scale_less:
  assumes xy: "x \<le> y" and less: "a * 2 ^ nat (- y) < b * 2 ^ nat y"
  shows "(a::nat) * 2 ^ nat (- x) < b * 2 ^ nat x * 2 ^ nat (y - x)"
proof -
  have "a * 2 ^ nat (- y) * 2 ^ nat (- x) < b * 2 ^ nat y * 2 ^ nat (- x)"
    using less by simp
  moreover have "b * 2 ^ nat y * 2 ^ nat (- x) = (b * 2 ^ nat x * 2 ^ nat (y - x)) * 2 ^ nat (- y)"
    using pow_shift [OF xy] by (simp add: mult_ac)
  moreover have "a * 2 ^ nat (- y) * 2 ^ nat (- x) = (a * 2 ^ nat (- x)) * 2 ^ nat (- y)"
    by (simp add: mult_ac)
  ultimately have "(a * 2 ^ nat (- x)) * 2 ^ nat (- y) < (b * 2 ^ nat x * 2 ^ nat (y - x)) * 2 ^ nat (- y)"
    by simp
  then show ?thesis by (simp only: mult_less_cancel2) 
qed

lemma float_exponent_floor_log2: "float_exponent a b = max (floor_log2 a b - 52) (- 1074)"
  by (simp add: float_exponent_def)

lemma floor_log2_le: "floor_log2 a b \<le> int (bit_length a) - int (bit_length b)"
  by (simp add: floor_log2_def Let_def)

lemma floor_log2_lower:
  assumes a: "0 < a" and b: "0 < b"
  shows "b * 2 ^ nat (floor_log2 a b) \<le> a * 2 ^ nat (- floor_log2 a b)"
proof -
  define la where "la = bit_length a"
  define lb where "lb = bit_length b"
  define k where "k = int la - int lb"
  have la: "2 ^ (la - 1) \<le> a" "0 < la"
    using bit_length_lower [OF a] bit_length_pos [OF a] by (simp_all add: la_def)
  have lb: "b < 2 ^ lb" using bit_length_upper [of b] by (simp add: lb_def)
  show ?thesis
  proof (cases "b * 2 ^ nat k \<le> a * 2 ^ nat (- k)")
    case True
    then show ?thesis by (simp add: floor_log2_def Let_def k_def la_def lb_def)
  next
    case False
    then have fl: "floor_log2 a b = k - 1"
      by (simp add: floor_log2_def Let_def k_def la_def lb_def)
    have ex: "lb + nat (k - 1) = (la - 1) + nat (- (k - 1))"
      using la(2) by (simp add: k_def)
    have "b * 2 ^ nat (k - 1) \<le> 2 ^ lb * 2 ^ nat (k - 1)" using lb by simp
    also have "\<dots> = 2 ^ (la - 1) * 2 ^ nat (- (k - 1))"
      by (simp only: power_add [symmetric] ex)
    also have "\<dots> \<le> a * 2 ^ nat (- (k - 1))" using la(1) by simp
    finally show ?thesis by (simp add: fl)
  qed
qed

lemma floor_log2_upper:
  assumes a: "0 < a" and b: "0 < b"
  shows "a * 2 ^ nat (- floor_log2 a b) < 2 * b * 2 ^ nat (floor_log2 a b)"
proof -
  define la where "la = bit_length a"
  define lb where "lb = bit_length b"
  define k where "k = int la - int lb"
  have la: "a < 2 ^ la" using bit_length_upper [of a] by (simp add: la_def)
  have lb: "2 ^ (lb - 1) \<le> b" "0 < lb"
    using bit_length_lower [OF b] bit_length_pos [OF b] by (simp_all add: lb_def)
  show ?thesis
  proof (cases "b * 2 ^ nat k \<le> a * 2 ^ nat (- k)")
    case True
    then have fl: "floor_log2 a b = k"
      by (simp add: floor_log2_def Let_def k_def la_def lb_def)
    have ex: "la + nat (- k) = Suc ((lb - 1) + nat k)"
      using lb(2) by (simp add: k_def)
    have "a * 2 ^ nat (- k) < 2 ^ la * 2 ^ nat (- k)" using la by simp
    also have "\<dots> = 2 * (2 ^ (lb - 1) * 2 ^ nat k)"
      by (simp only: power_add [symmetric] ex power_Suc)
    also have "\<dots> \<le> 2 * (b * 2 ^ nat k)" using lb(1) by simp
    finally show ?thesis by (simp add: fl mult_ac)
  next
    case False
    then have fl: "floor_log2 a b = k - 1"
      by (simp add: floor_log2_def Let_def k_def la_def lb_def)
    from False have "a * 2 ^ nat (- k) < b * 2 ^ nat k" by simp
    from scale_less [OF _ this, of "k - 1"]
    have "a * 2 ^ nat (- (k - 1)) < b * 2 ^ nat (k - 1) * 2" by simp
    then show ?thesis by (simp add: fl mult_ac)
  qed
qed

lemma scale_up_less:
  assumes xy: "x \<le> y" and less: "(a::nat) * 2 ^ nat (- x) < B * 2 ^ nat x"
  shows "a * 2 ^ nat (- y) < B * 2 ^ nat y"
proof -
  have "a * 2 ^ nat (- x) * 2 ^ nat (- y) < B * 2 ^ nat x * 2 ^ nat (- y)" using less by simp
  also have "\<dots> \<le> B * (2 ^ nat x * 2 ^ nat (- y) * 2 ^ nat (y - x))" by simp
  also have "\<dots> = B * 2 ^ nat y * 2 ^ nat (- x)"
    using pow_shift [OF xy] by (simp add: mult.assoc)
  finally have "(a * 2 ^ nat (- y)) * 2 ^ nat (- x) < (B * 2 ^ nat y) * 2 ^ nat (- x)"
    by (simp add: mult_ac)
  then show ?thesis by (simp only: mult_less_cancel2)
qed

lemma float_exponent_ge: "floor_log2 a b - 52 \<le> float_exponent a b"
  by (simp add: float_exponent_floor_log2)

lemma quotient_less:
  assumes a: "0 < a" and b: "0 < b"
  shows "a * 2 ^ nat (- float_exponent a b) < 2 ^ 53 * b * 2 ^ nat (float_exponent a b)"
proof -
  let ?fl = "floor_log2 a b"
  have "a * 2 ^ nat (- ?fl) < (2 * b) * 2 ^ nat ?fl" using floor_log2_upper [OF a b] by simp
  from scale_less [OF _ this, of "?fl - 52"]
  have "a * 2 ^ nat (- (?fl - 52)) < (2 * b) * 2 ^ nat (?fl - 52) * 2 ^ 52" by simp
  then have "a * 2 ^ nat (- (?fl - 52)) < (2 ^ 53 * b) * 2 ^ nat (?fl - 52)" by simp
  from scale_up_less [OF float_exponent_ge this] show ?thesis .
qed

lemma mantissa_le:
  assumes a: "0 < a" and b: "0 < b"
  shows "fst (float_quotient a b) \<le> 2 ^ 53"
proof -
  have "a * 2 ^ nat (- float_exponent a b) \<le> 2 ^ 53 * (b * 2 ^ nat (float_exponent a b))"
    using quotient_less [OF a b] by (simp add: mult_ac)
  from rhe_le [OF _ this] b show ?thesis by (simp add: float_quotient_def Let_def)
qed

lemma mantissa_0: "0 < b \<Longrightarrow> fst (float_quotient 0 b) = 0"
  by (simp add: float_quotient_def Let_def round_half_even_def)

lemma ceil_unique:
  assumes s: "0 < (s::int)" and lo: "(c - 1) * s < m" and hi: "m \<le> c * s"
  shows "- ((- m) div s) = c"
proof -
  have "- m = s * (- c) + (c * s - m)" by (simp add: algebra_simps)
  moreover have "0 \<le> c * s - m" using hi by simp
  moreover have "c * s - m < s" using lo by (simp add: algebra_simps)
  ultimately have "(- m) div s = - c" by (rule int_div_pos_eq)
  then show ?thesis by simp
qed

lemma ceil_exact_bounds:
  assumes "0 < (n::int)"
  shows "l \<le> n * (- ((- l) div n))" and "n * (- ((- l) div n) - 1) < l"
proof -
  have "n * ((- l) div n) \<le> - l"
    using assms by (metis mult_div_mod_eq pos_mod_sign add.commute le_add_same_cancel2)
  then show "l \<le> n * (- ((- l) div n))" by simp
  have "- l < n * ((- l) div n) + n"
    using assms by (metis mult_div_mod_eq pos_mod_bound add_less_cancel_left)
  then show "n * (- ((- l) div n) - 1) < l" by (simp add: algebra_simps)
qed

lemma small_quotient:
  assumes a: "0 < a" "a < 2 ^ 53" and b: "0 < b" "b < 2 ^ 1075"
  shows "float_exponent a b \<le> 0"
    and "- ((- int (fst (float_quotient a b))) div 2 ^ nat (- float_exponent a b)) =
           - ((- int a) div int b)"
proof -
  let ?fl = "floor_log2 a b"
  let ?e = "float_exponent a b"
  define s where "s = (2::nat) ^ nat (- ?e)"
  have "bit_length a \<le> 53" using a(2) by (rule bit_length_le)
  moreover have "0 < bit_length b" using b(1) by (rule bit_length_pos)
  ultimately have "?fl \<le> 52" using floor_log2_le [of a b] by linarith
  then show e0: "?e \<le> 0" by (simp add: float_exponent_floor_log2)
  then have up: "nat ?e = 0" by simp
  have spos: "0 < s" by (simp add: s_def)
  have bs: "b < 2 * s"
  proof (cases "?fl - 52 \<le> - 1074")
    case True
    then have "?e = - 1074" by (simp add: float_exponent_floor_log2)
    then show ?thesis using b(2) by (simp add: s_def)
  next
    case False
    then have e: "?e = ?fl - 52" by (simp add: float_exponent_floor_log2)
    from scale_le [OF _ floor_log2_lower [OF a(1) b(1)], of "?fl - 52"]
    have "b * 2 ^ nat (?fl - 52) * 2 ^ 52 \<le> a * 2 ^ nat (- (?fl - 52))" by simp
    then have "b * 2 ^ 52 \<le> a * s" using up by (simp add: e [symmetric] s_def)
    also have "\<dots> < 2 ^ 53 * s" using a(2) spos by simp
    finally show ?thesis by simp
  qed
  define c where "c = nat (- ((- int a) div int b))"
  have cb: "int a \<le> int b * (- ((- int a) div int b))" "int b * (- ((- int a) div int b) - 1) < int a"
    using ceil_exact_bounds [of "int b" "int a"] b(1) by simp_all
  have cpos: "0 < - ((- int a) div int b)"
  proof (rule ccontr)
    assume "\<not> 0 < - ((- int a) div int b)"
    then have "- ((- int a) div int b) \<le> 0" by simp
    then have "int b * (- ((- int a) div int b)) \<le> 0" using b(1) by (simp add: mult_le_0_iff)
    with cb(1) a(1) show False by simp
  qed
  then have ci: "int c = - ((- int a) div int b)" by (simp add: c_def)
  have c1: "1 \<le> c" using cpos by (simp add: c_def)
  have hi: "a \<le> c * b"
  proof -
    have "int a \<le> int (c * b)" using cb(1) by (simp add: ci mult.commute)
    then show ?thesis by linarith
  qed
  have lo: "(c - 1) * b < a"
  proof -
    have "int ((c - 1) * b) < int a" using cb(2) c1 by (simp add: ci [symmetric] mult.commute)
    then show ?thesis by linarith
  qed
  define m where "m = fst (float_quotient a b)"
  have m: "m = round_half_even (a * s) b" by (simp add: m_def float_quotient_def Let_def up s_def)
  have mhi: "m \<le> c * s"
  proof -
    have "a * s \<le> (c * s) * b" using hi by (simp add: mult_ac)
    from rhe_le [OF b(1) this] show ?thesis by (simp add: m)
  qed
  have mlo: "(c - 1) * s + 1 \<le> m"
  proof -
    have "(c - 1) * b + 1 \<le> a" using lo by simp
    then have "((c - 1) * b + 1) * (2 * s) \<le> a * (2 * s)" by (simp only: mult_le_mono1)
    then have "2 * ((c - 1) * s) * b + 2 * s \<le> 2 * (a * s)" by (simp add: algebra_simps)
    then have "(2 * ((c - 1) * s) + 1) * b < 2 * (a * s)" using bs by (simp add: algebra_simps)
    from rhe_ge [OF b(1) this] show ?thesis by (simp add: m)
  qed
  have "- ((- int m) div int s) = int c"
  proof (rule ceil_unique)
    show "0 < int s" using spos by simp
    have "int ((c - 1) * s) < int m" using mlo by linarith
    then show "(int c - 1) * int s < int m" using c1 by simp
    have "int m \<le> int (c * s)" using mhi by linarith
    then show "int m \<le> int c * int s" by simp
  qed
  then show "- ((- int (fst (float_quotient a b))) div 2 ^ nat (- float_exponent a b)) =
           - ((- int a) div int b)"
    by (simp add: m_def s_def ci)
qed

lemma no_overflow:
  assumes a: "a < 2 ^ 1023" and b: "0 < b"
  shows "fst (float_quotient a b) * 2 ^ nat (snd (float_quotient a b)) < 2 ^ 1024"
proof (cases "a = 0")
  case True
  then show ?thesis using mantissa_0 [OF b] by simp
next
  case False
  then have a0: "0 < a" by simp
  let ?e = "float_exponent a b"
  have sn: "snd (float_quotient a b) = ?e" by (simp add: float_quotient_def Let_def)
  show ?thesis
  proof (cases "?e \<le> 0")
    case True
    then have "nat ?e = 0" by simp
    moreover have "(2::nat) ^ 53 < 2 ^ 1024" by simp
    ultimately show ?thesis using mantissa_le [OF a0 b] by (simp add: sn)
  next
    case False
    then have epos: "0 < ?e" by simp
    have "bit_length a \<le> 1023" using a by (rule bit_length_le)
    moreover have "0 < bit_length b" using b by (rule bit_length_pos)
    ultimately have "floor_log2 a b \<le> 1022" using floor_log2_le [of a b] by linarith
    then have e: "nat ?e \<le> 1023" by (simp add: float_exponent_floor_log2)
    have dn: "nat (- ?e) = 0" using epos by simp
    define P where "P = (2::nat) ^ (1023 - nat ?e)"
    define Q where "Q = (2::nat) ^ nat ?e"
    have PQ: "P * Q = 2 ^ 1023"
      unfolding P_def Q_def using e by (metis le_add_diff_inverse2 power_add)
    have "Q \<le> b * Q" using b by simp
    then have "P * Q \<le> P * (b * Q)" by (rule mult_le_mono2)
    then have "a \<le> P * (b * Q)" using a unfolding PQ by linarith
    from rhe_le [OF _ this] b
    have "fst (float_quotient a b) \<le> P"
      by (simp add: float_quotient_def Let_def dn Q_def)
    then have "fst (float_quotient a b) * Q \<le> P * Q" by (rule mult_le_mono1)
    also have "\<dots> < 2 ^ 1024" unfolding PQ by simp
    finally show ?thesis by (simp add: sn Q_def)
  qed
qed

lemma ceil_div_total:
  assumes "max_threads \<noteq> 0" and "\<bar>whole_length\<bar> < 2 ^ 1023"
  shows "\<exists>seg. ceil_div whole_length max_threads = Inr seg"
proof -
  have a: "nat \<bar>whole_length\<bar> < 2 ^ 1023" using assms(2) by (simp add: nat_less_iff)
  have b: "0 < nat \<bar>max_threads\<bar>" using assms(1) by simp
  obtain m e where me: "float_quotient (nat \<bar>whole_length\<bar>) (nat \<bar>max_threads\<bar>) = (m, e)"
    by (cases "float_quotient (nat \<bar>whole_length\<bar>) (nat \<bar>max_threads\<bar>)")
  from no_overflow [OF a b] me have "\<not> 2 ^ 1024 \<le> m * 2 ^ nat e" by simp
  then show ?thesis using assms(1) me by (simp add: ceil_div_def)
qed

lemma ceil_div_exact:
  assumes L: "0 \<le> whole_length" "whole_length < 2 ^ 53"
    and N: "1 \<le> max_threads" "max_threads < 2 ^ 1075"
  shows "ceil_div whole_length max_threads = Inr (- ((- whole_length) div max_threads))"
proof -
  define a where "a = nat whole_length"
  define b where "b = nat max_threads"
  have ab: "int a = whole_length" "int b = max_threads" using L N by (simp_all add: a_def b_def)
  have a: "a < 2 ^ 53" using L by (simp add: a_def nat_less_iff)
  have b: "0 < b" "b < 2 ^ 1075" using N by (simp_all add: b_def nat_less_iff)
  have abs: "nat \<bar>whole_length\<bar> = a" "nat \<bar>max_threads\<bar> = b" using L N by (simp_all add: a_def b_def)
  obtain m e where me: "float_quotient a b = (m, e)" by (cases "float_quotient a b")
  have e: "e = float_exponent a b" using me by (simp add: float_quotient_def Let_def)
  have "a < 2 ^ 1023"
  proof -
    have "(2::nat) ^ 53 < 2 ^ 1023" by simp
    with a show ?thesis by linarith
  qed
  from no_overflow [OF this b(1)] me have nov: "\<not> 2 ^ 1024 \<le> m * 2 ^ nat e" by simp
  have sign: "(whole_length < 0) = (max_threads < 0)" using L N by simp
  have val: "- ((- int (m * 2 ^ nat e)) div 2 ^ nat (- e)) = - ((- int a) div int b)"
  proof (cases "a = 0")
    case True
    then have "m = 0" using mantissa_0 [OF b(1)] me by simp
    then show ?thesis using True by simp
  next
    case False
    then have a0: "0 < a" by simp
    from small_quotient [OF a0 a b] me e show ?thesis by simp
  qed
  have N0: "max_threads \<noteq> 0" using N by simp
  show ?thesis unfolding ceil_div_def abs me using N0 nov sign val ab by simp
qed

lemma ceil_div_samples:
  "ceil_div 10 3 = Inr 4"
  "ceil_div 9007199254740993 2 = Inr 4503599627370496"
  by (simp_all add: ceil_div_def float_quotient_def float_exponent_def floor_log2_def
      round_half_even_def bit_length.simps Let_def)

lemma View_init_ok:
  "BamHandler m bam = Inr b \<Longrightarrow> FastaHandler m ref = Inr f \<Longrightarrow>
   View_init m c bam ref od w =
     (Inr \<lparr>bam_handler = b, fasta_handler = f, output_dir = od, view_chromosome_name = c\<rparr>,
      logc (CallFastaHandler ref) (logc (CallBamHandler bam) w))"
  by (simp add: View_init_def Let_def)

lemma logc_fields [simp]:
  "started (logc c w) = started w" "dirs (logc c w) = dirs w" "files (logc c w) = files w"
  "calls (logc c w) = calls w @ [c]"
  by (simp_all add: logc_def)

lemma View_init_frame:
  "started (snd (View_init m c bam ref od w)) = started w \<and>
   dirs (snd (View_init m c bam ref od w)) = dirs w \<and>
   files (snd (View_init m c bam ref od w)) = files w \<and>
   (\<exists>cs. calls (snd (View_init m c bam ref od w)) = calls w @ cs \<and>
         set cs \<subseteq> {CallBamHandler bam, CallFastaHandler ref})"
  by (auto simp: View_init_def Let_def split: sum.splits)

lemma do_parallel_loop_started:
  assumes "BamHandler m bam = Inr b" and "FastaHandler m ref = Inr f"
  shows "fst (do_parallel_loop m c bam ref j od seg is w) = Inr () \<and>
         started (snd (do_parallel_loop m c bam ref j od seg is w)) =
           started w @ map (\<lambda>i. \<lparr>target = \<lparr>bam_handler = b, fasta_handler = f, output_dir = od,
                                            view_chromosome_name = c\<rparr>,
                                  args = (i * seg, (i + 1) * seg + 1000, j)\<rparr>) is"
  using assms
proof (induction "is" arbitrary: w)
  case Nil
  then show ?case by simp
next
  case (Cons i "is")
  show ?case
    by (simp add: View_init_ok [OF Cons.prems] Cons.IH [OF Cons.prems] Let_def)
qed

lemma do_parallel_loop_frame:
  "dirs (snd (do_parallel_loop m c bam ref j od seg is w)) = dirs w \<and>
   files (snd (do_parallel_loop m c bam ref j od seg is w)) = files w \<and>
   (\<exists>cs. calls (snd (do_parallel_loop m c bam ref j od seg is w)) = calls w @ cs \<and>
         set cs \<subseteq> {CallBamHandler bam, CallFastaHandler ref})"
proof (induction "is" arbitrary: w)
  case Nil
  then show ?case by simp
next
  case (Cons i "is")
  obtain r w1 where v: "View_init m c bam ref od w = (r, w1)" by (cases "View_init m c bam ref od w")
  from View_init_frame [of m c bam ref od w] v
  obtain cs where f1: "dirs w1 = dirs w" "files w1 = files w" "calls w1 = calls w @ cs"
      "set cs \<subseteq> {CallBamHandler bam, CallFastaHandler ref}" by auto
  show ?case
  proof (cases r)
    case (Inl e)
    with v f1 show ?thesis by simp
  next
    case (Inr view)
    let ?w2 = "w1\<lparr>started := started w1 @ [\<lparr>target = view, args = (i * seg, (i + 1) * seg + 1000, j)\<rparr>]\<rparr>"
    from Cons.IH [of ?w2] obtain cs' where
      f2: "dirs (snd (do_parallel_loop m c bam ref j od seg is ?w2)) = dirs ?w2"
          "files (snd (do_parallel_loop m c bam ref j od seg is ?w2)) = files ?w2"
          "calls (snd (do_parallel_loop m c bam ref j od seg is ?w2)) = calls ?w2 @ cs'"
          "set cs' \<subseteq> {CallBamHandler bam, CallFastaHandler ref}" by auto
    have "calls (snd (do_parallel_loop m c bam ref j od seg is ?w2)) = calls w @ (cs @ cs')"
      using f2 f1 by simp
    moreover have "set (cs @ cs') \<subseteq> {CallBamHandler bam, CallFastaHandler ref}"
      using f1 f2 by simp
    ultimately show ?thesis using v Inr f1 f2 by (simp add: Let_def)
  qed
qed

lemma cover:
  assumes n: "0 < (n::int)" and seg: "0 \<le> seg" and x0: "0 \<le> x" and xn: "x \<le> n * seg"
  shows "\<exists>i<nat n. int i * seg \<le> x \<and> x < (int i + 1) * seg + 1000"
proof (cases "x < n * seg")
  case True
  then have pos: "0 < seg" using n x0 by (smt (verit) mult_nonneg_nonpos)
  let ?q = "x div seg"
  have q0: "0 \<le> ?q" using x0 pos by (simp add: pos_imp_zdiv_nonneg_iff)
  have lo: "?q * seg \<le> x"
    using pos by (metis mult_div_mod_eq pos_mod_sign add.commute le_add_same_cancel2 mult.commute)
  have hi: "x < (?q + 1) * seg"
    using pos by (metis mult_div_mod_eq pos_mod_bound add_less_cancel_left distrib_right mult.commute mult_1)
  have "?q * seg < n * seg" using lo True by simp
  then have qn: "?q < n" using pos by (simp add: mult_less_cancel_right)
  have "nat ?q < nat n" using q0 qn by simp
  moreover have "int (nat ?q) = ?q" using q0 by simp
  ultimately show ?thesis using lo hi by (intro exI [of _ "nat ?q"]) simp
next
  case False
  then have eq: "x = n * seg" using xn by simp
  have "nat (n - 1) < nat n" using n by simp
  moreover have "int (nat (n - 1)) = n - 1" using n by simp
  moreover have "(n - 1) * seg \<le> n * seg" using seg by (simp add: mult_right_mono)
  ultimately show ?thesis using eq n by (intro exI [of _ "nat (n - 1)"]) (simp add: algebra_simps)
qed

lemma started_by_append: "started w' = started w @ ps \<Longrightarrow> started_by w w' = ps"
  by (simp add: started_by_def)

lemma do_parallel_unfold:
  assumes "FastaHandler m ref = Inr f" and "get_chr_sequence_length m f c = Inr L"
    and "ceil_div L N = Inr seg"
  shows "do_parallel m c bam ref j od N w =
           do_parallel_loop m c bam ref j od seg (range_py N)
             (logc (CallGetChrSequenceLength c) (logc (CallFastaHandler ref) w))"
  using assms by (simp add: do_parallel_def Let_def)

lemma calls_by_append: "calls w' = calls w @ cs \<Longrightarrow> calls_by w w' = cs"
  by (simp add: calls_by_def)

lemma ceil_div_zero: "ceil_div L 0 = Inl ZeroDivisionError"
  by (simp add: ceil_div_def)

lemma ceil_div_cases:
  "N \<noteq> 0 \<Longrightarrow> (\<exists>seg. ceil_div L N = Inr seg) \<or> ceil_div L N = Inl OverflowError"
  by (simp add: ceil_div_def split: prod.splits)

lemma do_parallel_frame:
  "dirs (snd (do_parallel m c bam ref j od N w)) = dirs w \<and>
   files (snd (do_parallel m c bam ref j od N w)) = files w \<and>
   (\<exists>cs. calls (snd (do_parallel m c bam ref j od N w)) = calls w @ cs \<and>
         set cs \<subseteq> {CallBamHandler bam, CallFastaHandler ref, CallGetChrSequenceLength c})"
proof (cases "FastaHandler m ref")
  case (Inl e)
  then show ?thesis by (simp add: do_parallel_def Let_def)
next
  case f: (Inr f)
  show ?thesis
  proof (cases "get_chr_sequence_length m f c")
    case (Inl e)
    then show ?thesis using f by (simp add: do_parallel_def Let_def)
  next
    case L: (Inr L)
    show ?thesis
    proof (cases "ceil_div L N")
      case (Inl e)
      then show ?thesis using f L by (simp add: do_parallel_def Let_def)
    next
      case (Inr seg)
      let ?w2 = "logc (CallGetChrSequenceLength c) (logc (CallFastaHandler ref) w)"
      from do_parallel_loop_frame [of m c bam ref j od seg "range_py N" ?w2]
      obtain cs where
        "dirs (snd (do_parallel_loop m c bam ref j od seg (range_py N) ?w2)) = dirs w"
        "files (snd (do_parallel_loop m c bam ref j od seg (range_py N) ?w2)) = files w"
        "calls (snd (do_parallel_loop m c bam ref j od seg (range_py N) ?w2)) =
           calls w @ ([CallFastaHandler ref, CallGetChrSequenceLength c] @ cs)"
        "set cs \<subseteq> {CallBamHandler bam, CallFastaHandler ref}" by auto
      then show ?thesis
        unfolding do_parallel_unfold [OF f L Inr]
        by (intro conjI exI [of _ "[CallFastaHandler ref, CallGetChrSequenceLength c] @ cs"]) auto
    qed
  qed
qed

lemma do_parallel_nonpos_started:
  assumes "N \<le> 0"
  shows "started (snd (do_parallel m c bam ref j od N w)) = started w"
  using assms by (simp add: do_parallel_def Let_def range_py_def split: sum.splits)

lemma parse_region_no_reads:
  assumes "get_reads m (bam_handler v) (view_chromosome_name v) s e = Inl err"
  shows "fst (parse_region m v s e j w) = Inl err"
  using assms by (simp add: parse_region_def Let_def)

lemmas sample_simps = sample_modules_def unavailable_modules_def sample_world_def

lemmas float_simps = ceil_div_def float_quotient_def float_exponent_def floor_log2_def
  round_half_even_def bit_length.simps

lemma file_write_fields [simp]:
  "dirs (file_write w p s) = dirs w" "calls (file_write w p s) = calls w"
  "started (file_write w p s) = started w"
  by (simp_all add: file_write_def)

lemma mkdir_fields:
  "mkdir w p = Inr w' \<Longrightarrow> calls w' = calls w \<and> started w' = started w \<and> files w' = files w \<and>
     name_max w' = name_max w \<and> path_max w' = path_max w \<and>
     dirs w' = insert (strip_slash p) (dirs w)"
  by (auto simp: mkdir_def split: if_splits option.splits)

lemma open_w_fields:
  "open_w w p = Inr w' \<Longrightarrow> calls w' = calls w \<and> started w' = started w \<and> dirs w' = dirs w \<and>
     files w' = (files w)(p \<mapsto> [])"
  by (auto simp: open_w_def split: if_splits option.splits)

lemma path_error_fs: "path_error w p = Some e \<Longrightarrow> fs_error e"
  by (auto simp: path_error_def fs_error_def split: if_splits)

lemma mkdir_error: "mkdir w p = Inl e \<Longrightarrow> fs_error e"
  by (auto simp: mkdir_def fs_error_def split: if_splits option.splits dest: path_error_fs)

lemma open_w_error: "open_w w p = Inl e \<Longrightarrow> fs_error e"
  by (auto simp: open_w_def fs_error_def split: if_splits option.splits dest: path_error_fs)

lemma write_json_region: "fst (snd (write_json m v s e r w)) = r"
  by (simp add: write_json_def Let_def split: sum.splits)

lemma write_json_frame:
  "calls (snd (snd (write_json m v s e r w))) = calls w \<and>
   started (snd (snd (write_json m v s e r w))) = started w"
  by (auto simp: write_json_def Let_def split: sum.splits if_splits
      dest!: mkdir_fields open_w_fields)

lemma write_json_error:
  "fst (write_json m v s e r w) = Inl err \<Longrightarrow> fs_error err \<or> reprJSON m r = Inl err"
  by (auto simp: write_json_def Let_def split: sum.splits if_splits
      dest: mkdir_error open_w_error)

lemma add_candidate_fields [simp]:
  "chromosome_name (add_candidate_to_list r x) = chromosome_name r"
  "start_position (add_candidate_to_list r x) = start_position r"
  "end_position (add_candidate_to_list r x) = end_position r"
  "all_candidates (add_candidate_to_list r x) = all_candidates r @ [x]"
  by (simp_all add: add_candidate_to_list_def)

lemma parse_windows_frame:
  "dirs (snd (parse_windows m v ws r w)) = dirs w \<and>
   files (snd (parse_windows m v ws r w)) = files w \<and>
   started (snd (parse_windows m v ws r w)) = started w"
proof (induction ws arbitrary: r w)
  case Nil
  show ?case by simp
next
  case (Cons x ws)
  obtain c s e where x: "x = (c, s, e)" by (cases x)
  show ?case unfolding x
    by (simp add: Let_def Cons.IH split: sum.splits)
qed

lemma parse_windows_calls:
  "\<exists>cs. calls (snd (parse_windows m v ws r w)) = calls w @ cs \<and>
        set cs \<subseteq> set (concat (map wcalls ws))"
proof (induction ws arbitrary: r w)
  case Nil
  show ?case by simp
next
  case (Cons x ws)
  obtain c s e where x: "x = (c, s, e)" by (cases x)
  show ?case
  proof (cases "get_sequence m (fasta_handler v) c s (e + 1)")
    case (Inl err)
    then show ?thesis unfolding x by (simp add: Let_def wcalls_def)
  next
    case sq: (Inr sq)
    show ?thesis
    proof (cases "get_pileupcolumns_aligned_to_a_region m (bam_handler v) c s (e + 1)")
      case (Inl err)
      then show ?thesis unfolding x using sq
        by (intro exI [of _ "[CallGetSequence c s (e + 1), CallGetPileupcolumns c s (e + 1)]"])
           (simp add: Let_def wcalls_def)
    next
      case pl: (Inr pl)
      show ?thesis
      proof (cases "AlleleFinder m c s e pl sq")
        case (Inl err)
        then show ?thesis unfolding x using sq pl
          by (intro exI [of _ "wcalls (c, s, e)"]) (simp add: Let_def wcalls_def)
      next
        case (Inr cand)
        let ?w3 = "logc (CallAlleleFinder c s e) (logc (CallGetPileupcolumns c s (e + 1))
                     (logc (CallGetSequence c s (e + 1)) w))"
        from Cons.IH [of "add_candidate_to_list r cand" ?w3] obtain cs where
          cs: "calls (snd (parse_windows m v ws (add_candidate_to_list r cand) ?w3)) =
                 calls ?w3 @ cs" "set cs \<subseteq> set (concat (map wcalls ws))" by blast
        show ?thesis unfolding x using sq pl Inr cs
          by (intro exI [of _ "wcalls (c, s, e) @ cs"]) (auto simp: Let_def wcalls_def)
      qed
    qed
  qed
qed

lemma parse_windows_ok:
  assumes "fst (parse_windows m v ws r w) = Inr r'"
  shows "calls (snd (parse_windows m v ws r w)) = calls w @ concat (map wcalls ws) \<and>
         chromosome_name r' = chromosome_name r \<and> start_position r' = start_position r \<and>
         end_position r' = end_position r \<and>
         (\<exists>cs. all_candidates r' = all_candidates r @ cs \<and>
            list_all2 (\<lambda>x cand. case x of (c, s, e) \<Rightarrow> \<exists>sq pl.
                 get_sequence m (fasta_handler v) c s (e + 1) = Inr sq \<and>
                 get_pileupcolumns_aligned_to_a_region m (bam_handler v) c s (e + 1) = Inr pl \<and>
                 AlleleFinder m c s e pl sq = Inr cand) ws cs)"
  using assms
proof (induction ws arbitrary: r w)
  case Nil
  then show ?case by simp
next
  case (Cons x ws)
  obtain c s e where x: "x = (c, s, e)" by (cases x)
  from Cons.prems obtain sq where sq: "get_sequence m (fasta_handler v) c s (e + 1) = Inr sq"
    unfolding x by (cases "get_sequence m (fasta_handler v) c s (e + 1)") (simp_all add: Let_def)
  from Cons.prems sq obtain pl where
    pl: "get_pileupcolumns_aligned_to_a_region m (bam_handler v) c s (e + 1) = Inr pl"
    unfolding x
    by (cases "get_pileupcolumns_aligned_to_a_region m (bam_handler v) c s (e + 1)")
       (simp_all add: Let_def)
  from Cons.prems sq pl obtain cand where cand: "AlleleFinder m c s e pl sq = Inr cand"
    unfolding x by (cases "AlleleFinder m c s e pl sq") (simp_all add: Let_def)
  let ?w3 = "logc (CallAlleleFinder c s e) (logc (CallGetPileupcolumns c s (e + 1))
               (logc (CallGetSequence c s (e + 1)) w))"
  have step: "parse_windows m v (x # ws) r w =
                parse_windows m v ws (add_candidate_to_list r cand) ?w3"
    unfolding x using sq pl cand by (simp add: Let_def)
  from Cons.prems have "fst (parse_windows m v ws (add_candidate_to_list r cand) ?w3) = Inr r'"
    by (simp add: step)
  from Cons.IH [OF this] obtain cs where
    ih: "calls (snd (parse_windows m v ws (add_candidate_to_list r cand) ?w3)) =
           calls ?w3 @ concat (map wcalls ws)"
        "chromosome_name r' = chromosome_name r" "start_position r' = start_position r"
        "end_position r' = end_position r"
        "all_candidates r' = (all_candidates r @ [cand]) @ cs"
        "list_all2 (\<lambda>x cand. case x of (c, s, e) \<Rightarrow> \<exists>sq pl.
                 get_sequence m (fasta_handler v) c s (e + 1) = Inr sq \<and>
                 get_pileupcolumns_aligned_to_a_region m (bam_handler v) c s (e + 1) = Inr pl \<and>
                 AlleleFinder m c s e pl sq = Inr cand) ws cs"
    by auto
  have "list_all2 (\<lambda>x cand. case x of (c, s, e) \<Rightarrow> \<exists>sq pl.
                 get_sequence m (fasta_handler v) c s (e + 1) = Inr sq \<and>
                 get_pileupcolumns_aligned_to_a_region m (bam_handler v) c s (e + 1) = Inr pl \<and>
                 AlleleFinder m c s e pl sq = Inr cand) (x # ws) (cand # cs)"
    using ih(6) sq pl cand by (simp add: x)
  moreover have "all_candidates r' = all_candidates r @ (cand # cs)" using ih(5) by simp
  moreover have "calls (snd (parse_windows m v (x # ws) r w)) =
                   calls w @ concat (map wcalls (x # ws))"
    using ih(1) by (simp add: step) (simp add: x wcalls_def)
  ultimately show ?case using ih(2,3,4) by blast
qed

lemma parse_region_unfold:
  assumes "get_reads m (bam_handler v) (view_chromosome_name v) s e = Inr reads"
    and "CandidateFinder m reads (fasta_handler v) (view_chromosome_name v) s e = Inr windows"
  shows "parse_region m v s e j w =
     (case parse_windows m v windows (AllCandidatesInRegion_init (view_chromosome_name v) s e)
             (logc (CallCandidateFinder (view_chromosome_name v) s e)
                (logc (CallGetReads (view_chromosome_name v) s e) w)) of
        (Inl err, w3) \<Rightarrow> (Inl err, w3)
      | (Inr acl, w3) \<Rightarrow>
          (if j then
             (case write_json m v s e acl w3 of
                (Inl err, r, w4) \<Rightarrow> (Inl err, w4)
              | (Inr u, r, w4) \<Rightarrow> (Inr r, w4))
           else (Inr acl, w3)))"
  using assms by (simp add: parse_region_def Let_def)

lemma parse_region_calls:
  assumes reads: "get_reads m (bam_handler v) (view_chromosome_name v) s e = Inr reads"
    and wins: "CandidateFinder m reads (fasta_handler v) (view_chromosome_name v) s e = Inr windows"
  shows "(\<exists>cs. calls (snd (parse_region m v s e j w)) =
            calls w @ [CallGetReads (view_chromosome_name v) s e,
                       CallCandidateFinder (view_chromosome_name v) s e] @ cs \<and>
            set cs \<subseteq> set (concat (map wcalls windows))) \<and>
         (\<forall>r. fst (parse_region m v s e j w) = Inr r \<longrightarrow>
            calls (snd (parse_region m v s e j w)) =
              calls w @ [CallGetReads (view_chromosome_name v) s e,
                         CallCandidateFinder (view_chromosome_name v) s e] @
              concat (map wcalls windows))"
proof -
  let ?c = "view_chromosome_name v"
  let ?w2 = "logc (CallCandidateFinder ?c s e) (logc (CallGetReads ?c s e) w)"
  let ?init = "AllCandidatesInRegion_init ?c s e"
  obtain res w3 where pw: "parse_windows m v windows ?init ?w2 = (res, w3)"
    by (cases "parse_windows m v windows ?init ?w2")
  from parse_windows_calls [of m v windows ?init ?w2] pw obtain cs where
    cs: "calls w3 = calls ?w2 @ cs" "set cs \<subseteq> set (concat (map wcalls windows))" by auto
  show ?thesis
  proof (cases res)
    case (Inl err)
    then show ?thesis using pw cs
      by (simp add: parse_region_unfold [OF reads wins])
  next
    case (Inr acl)
    from parse_windows_ok [of m v windows ?init ?w2 acl] pw Inr
    have full: "calls w3 = calls ?w2 @ concat (map wcalls windows)" by simp
    obtain x r w4 where wj: "write_json m v s e acl w3 = (x, r, w4)"
      by (cases "write_json m v s e acl w3")
    from write_json_frame [of m v s e acl w3] wj have c4: "calls w4 = calls w3" by simp
    show ?thesis
    proof (cases j)
      case False
      then show ?thesis using pw Inr cs full
        by (simp add: parse_region_unfold [OF reads wins])
    next
      case True
      then show ?thesis using pw Inr cs full wj c4
        by (cases x) (simp_all add: parse_region_unfold [OF reads wins])
    qed
  qed
qed

lemma parse_region_result:
  assumes reads: "get_reads m (bam_handler v) (view_chromosome_name v) s e = Inr reads"
    and wins: "CandidateFinder m reads (fasta_handler v) (view_chromosome_name v) s e = Inr windows"
    and ok: "fst (parse_region m v s e j w) = Inr r"
  shows "fst (parse_windows m v windows (AllCandidatesInRegion_init (view_chromosome_name v) s e)
             (logc (CallCandidateFinder (view_chromosome_name v) s e)
                (logc (CallGetReads (view_chromosome_name v) s e) w))) = Inr r"
proof -
  let ?c = "view_chromosome_name v"
  let ?w2 = "logc (CallCandidateFinder ?c s e) (logc (CallGetReads ?c s e) w)"
  let ?init = "AllCandidatesInRegion_init ?c s e"
  obtain res w3 where pw: "parse_windows m v windows ?init ?w2 = (res, w3)"
    by (cases "parse_windows m v windows ?init ?w2")
  show ?thesis
  proof (cases res)
    case (Inl err)
    then show ?thesis using pw ok by (simp add: parse_region_unfold [OF reads wins])
  next
    case (Inr acl)
    obtain x r' w4 where wj: "write_json m v s e acl w3 = (x, r', w4)"
      by (cases "write_json m v s e acl w3")
    from write_json_region [of m v s e acl w3] wj have "r' = acl" by simp
    then show ?thesis using pw Inr ok wj
      by (cases j; cases x) (simp_all add: parse_region_unfold [OF reads wins])
  qed
qed

lemma parse_windows_total:
  assumes "list_all2 (from_span m v) ws cs"
  shows "parse_windows m v ws r w =
           (Inr (r\<lparr>all_candidates := all_candidates r @ cs\<rparr>),
            w\<lparr>calls := calls w @ concat (map wcalls ws)\<rparr>)"
  using assms
proof (induction ws cs arbitrary: r w rule: list_all2_induct)
  case Nil
  show ?case by simp
next
  case (Cons x ws cand cs)
  obtain c a z where x: "x = (c, a, z)" by (cases x)
  from Cons.hyps(1) obtain sq pl where
    sq: "get_sequence m (fasta_handler v) c a (z + 1) = Inr sq"
    and pl: "get_pileupcolumns_aligned_to_a_region m (bam_handler v) c a (z + 1) = Inr pl"
    and cand: "AlleleFinder m c a z pl sq = Inr cand"
    by (auto simp: x from_span_def)
  let ?w3 = "logc (CallAlleleFinder c a z) (logc (CallGetPileupcolumns c a (z + 1))
               (logc (CallGetSequence c a (z + 1)) w))"
  have step: "parse_windows m v (x # ws) r w =
                parse_windows m v ws (add_candidate_to_list r cand) ?w3"
    unfolding x using sq pl cand by (simp add: Let_def)
  have wx: "wcalls x = [CallGetSequence c a (z + 1), CallGetPileupcolumns c a (z + 1),
                         CallAlleleFinder c a z]"
    by (simp add: wcalls_def x)
  show ?case
    unfolding step Cons.IH
    by (simp add: add_candidate_to_list_def logc_def wx)
qed

lemma ex_list_all2: "(\<forall>x \<in> set xs. \<exists>y. P x y) \<Longrightarrow> \<exists>ys. list_all2 P xs ys"
proof (induction xs)
  case Nil
  show ?case by simp
next
  case (Cons x xs)
  then obtain y ys where "P x y" "list_all2 P xs ys" by auto
  then have "list_all2 P (x # xs) (y # ys)" by simp
  then show ?case by blast
qed

lemma list_all2_ex: "list_all2 P xs ys \<Longrightarrow> \<forall>x \<in> set xs. \<exists>y. P x y"
  by (induction rule: list_all2_induct) auto

lemma parse_region_total:
  assumes reads: "get_reads m (bam_handler v) (view_chromosome_name v) s e = Inr reads"
    and wins: "CandidateFinder m reads (fasta_handler v) (view_chromosome_name v) s e = Inr windows"
    and all: "list_all2 (from_span m v) windows cands"
  shows "parse_region m v s e False w =
           (Inr \<lparr>chromosome_name = view_chromosome_name v, start_position = s, end_position = e,
                 all_candidates = cands\<rparr>,
            w\<lparr>calls := calls w @ [CallGetReads (view_chromosome_name v) s e,
                                   CallCandidateFinder (view_chromosome_name v) s e] @
                        concat (map wcalls windows)\<rparr>)"
  by (simp add: parse_region_unfold [OF reads wins] parse_windows_total [OF all]
      AllCandidatesInRegion_init_def logc_def)

lemma parse_region_list_all2:
  assumes reads: "get_reads m (bam_handler v) (view_chromosome_name v) s e = Inr reads"
    and wins: "CandidateFinder m reads (fasta_handler v) (view_chromosome_name v) s e = Inr windows"
    and ok: "fst (parse_region m v s e j w) = Inr r"
  shows "list_all2 (from_span m v) windows (all_candidates r) \<and>
         chromosome_name r = view_chromosome_name v \<and> start_position r = s \<and>
         end_position r = e"
proof -
  note t = parse_windows_ok [OF parse_region_result [OF reads wins ok]]
  from t [THEN conjunct2, THEN conjunct1] have f1: "chromosome_name r = view_chromosome_name v"
    by (simp add: AllCandidatesInRegion_init_def)
  from t [THEN conjunct2, THEN conjunct2, THEN conjunct1] have f2: "start_position r = s"
    by (simp add: AllCandidatesInRegion_init_def)
  from t [THEN conjunct2, THEN conjunct2, THEN conjunct2, THEN conjunct1]
  have f3: "end_position r = e"
    by (simp add: AllCandidatesInRegion_init_def)
  from t [THEN conjunct2, THEN conjunct2, THEN conjunct2, THEN conjunct2] obtain cs where
    cs: "all_candidates r =
           all_candidates (AllCandidatesInRegion_init (view_chromosome_name v) s e) @ cs"
        "list_all2 (\<lambda>x cand. case x of (c, s, e) \<Rightarrow> \<exists>sq pl.
                 get_sequence m (fasta_handler v) c s (e + 1) = Inr sq \<and>
                 get_pileupcolumns_aligned_to_a_region m (bam_handler v) c s (e + 1) = Inr pl \<and>
                 AlleleFinder m c s e pl sq = Inr cand) windows cs"
    by (elim exE conjE)
  have eq: "all_candidates r = cs" using cs(1) by (simp add: AllCandidatesInRegion_init_def)
  have "list_all2 (from_span m v) windows cs"
    using cs(2) by (rule list_all2_mono) (auto simp: from_span_def)
  then show ?thesis using f1 f2 f3 by (simp add: eq)
qed

lemma sample_parse_region:
  "fst (parse_region (sample_modules 10 [(''3'', 5, 7), (''3'', 20, 20)])
          \<lparr>bam_handler = (), fasta_handler = (), output_dir = ''out/'',
           view_chromosome_name = ''3''\<rparr> 0 100 False (sample_world {''out''})) =
     Inr \<lparr>chromosome_name = ''3'', start_position = 0, end_position = 100,
          all_candidates = [(''3'', 5, 7), (''3'', 20, 20)]\<rparr>"
  by (simp add: parse_region_def Let_def sample_simps AllCandidatesInRegion_init_def
      add_candidate_to_list_def)

lemma keys_sorted_sort_keys: "keys_sorted (sort_keys_json j)"
proof (induction j)
  case (JArr xs)
  then show ?case by (simp add: list_all_iff)
next
  case (JObj kvs)
  then show ?case by (auto simp: list_all_iff)
qed simp_all

lemma sort_keys_reprJSON:
  assumes "reprJSON m r = Inr j"
  shows "\<exists>js. sort_keys_json j =
           JObj [(''all_candidates'', JArr js), (''chromosome_name'', JStr (chromosome_name r)),
                 (''end_position'', JInt (end_position r)),
                 (''start_position'', JInt (start_position r))]"
  using assms by (auto simp: reprJSON_def split: sum.splits)

lemma write_json_ok:
  assumes "fst (write_json m v s e r w) = Inr ()"
  shows "\<exists>j. reprJSON m r = Inr j \<and>
           files (snd (snd (write_json m v s e r w))) =
             (files w)(output_dir v @ ''json_output/'' @ json_file_name (view_chromosome_name v) s e
                         \<mapsto> dumps j)"
proof -
  let ?d = "output_dir v @ ''json_output/''"
  let ?p = "?d @ json_file_name (view_chromosome_name v) s e"
  obtain w1 where w1: "(if \<not> path_exists w ?d then mkdir w ?d else Inr w) = Inr w1"
    using assms by (cases "if \<not> path_exists w ?d then mkdir w ?d else Inr w")
      (simp_all add: write_json_def)
  have f1: "files w1 = files w" using w1 mkdir_fields [of w ?d w1] by (auto split: if_splits)
  obtain w2 where w2: "open_w w1 ?p = Inr w2"
    using assms w1 by (cases "open_w w1 ?p") (simp_all add: write_json_def Let_def)
  have f2: "files w2 = (files w)(?p \<mapsto> [])" using open_w_fields [OF w2] f1 by simp
  obtain j where j: "reprJSON m r = Inr j"
    using assms w1 w2 by (cases "reprJSON m r") (simp_all add: write_json_def Let_def)
  have "snd (snd (write_json m v s e r w)) = file_write w2 ?p (dumps j)"
    using w1 w2 j by (simp add: write_json_def Let_def)
  then show ?thesis using j f2 by (simp add: file_write_def)
qed

lemma insort_key_map_value:
  "insort_key fst (fst x, f (snd x)) (map (\<lambda>kv. (fst kv, f (snd kv))) xs) =
     map (\<lambda>kv. (fst kv, f (snd kv))) (insort_key fst x xs)"
  by (induction xs) simp_all

lemma sort_key_map_value:
  "sort_key fst (map (\<lambda>kv. (fst kv, f (snd kv))) kvs) =
     map (\<lambda>kv. (fst kv, f (snd kv))) (sort_key fst kvs)"
  by (induction kvs) (simp_all add: insort_key_map_value)

lemma encode_sorted_dict:
  assumes "kvs \<noteq> []"
  shows "encode level (sort_keys_json (JObj kvs)) =
           ''{'' @ newline_indent (level + 1)
             @ join_with (CHR '','' # newline_indent (level + 1))
                 (map (\<lambda>kv. encode_string (fst kv) @ '': ''
                          @ encode (level + 1) (sort_keys_json (snd kv))) (sort_key fst kvs))
             @ newline_indent level @ ''}''"
proof -
  have ne: "sort_key fst kvs \<noteq> []" using assms by (metis length_sort length_0_conv)
  show ?thesis
    using ne by (simp add: sort_key_map_value comp_def)
qed

lemma encode_sorted_list:
  assumes "xs \<noteq> []"
  shows "encode level (sort_keys_json (JArr xs)) =
           ''['' @ newline_indent (level + 1)
             @ join_with (CHR '','' # newline_indent (level + 1))
                 (map (\<lambda>x. encode (level + 1) (sort_keys_json x)) xs)
             @ newline_indent level @ '']''"
  using assms by (simp add: comp_def)

lemma newline_indent_samples:
  "newline_indent 0 = [CHR 0x0A]"
  "newline_indent (Suc 0) = CHR 0x0A # ''    ''"
  "newline_indent 1 = CHR 0x0A # ''    ''"
  "newline_indent 2 = CHR 0x0A # ''        ''"
  "newline_indent 3 = CHR 0x0A # ''            ''"
  by (simp_all add: newline_indent_def numeral_eq_Suc)

lemma encode_key_samples:
  "encode_string ''all_candidates'' = quoted ''all_candidates''"
  "encode_string ''chromosome_name'' = quoted ''chromosome_name''"
  "encode_string ''end_position'' = quoted ''end_position''"
  "encode_string ''start_position'' = quoted ''start_position''"
  by (simp_all add: encode_string_def escape_char_def quoted_def)

lemma dumps_reprJSON:
  assumes "reprJSON m r = Inr j"
  shows "\<exists>js. candidates_json m (all_candidates r) = Inr js \<and>
           dumps j =
             ''{'' @ CHR 0x0A # ''    '' @ quoted ''all_candidates'' @ '': ''
               @ encode 1 (sort_keys_json (JArr js)) @ '','' @
             CHR 0x0A # ''    '' @ quoted ''chromosome_name'' @ '': ''
               @ encode_string (chromosome_name r) @ '','' @
             CHR 0x0A # ''    '' @ quoted ''end_position'' @ '': ''
               @ str_int (end_position r) @ '','' @
             CHR 0x0A # ''    '' @ quoted ''start_position'' @ '': ''
               @ str_int (start_position r) @
             CHR 0x0A # ''}''"
proof -
  from assms obtain js where js: "candidates_json m (all_candidates r) = Inr js"
    and j: "j = JObj [(''chromosome_name'', JStr (chromosome_name r)),
                      (''start_position'', JInt (start_position r)),
                      (''end_position'', JInt (end_position r)),
                      (''all_candidates'', JArr js)]"
    by (auto simp: reprJSON_def split: sum.splits)
  define arr where "arr = sort_keys_json (JArr js)"
  have sj: "sort_keys_json j =
              JObj [(''all_candidates'', arr), (''chromosome_name'', JStr (chromosome_name r)),
                    (''end_position'', JInt (end_position r)),
                    (''start_position'', JInt (start_position r))]"
    unfolding j arr_def by simp
  have "dumps j =
             ''{'' @ CHR 0x0A # ''    '' @ quoted ''all_candidates'' @ '': ''
               @ encode 1 arr @ '','' @
             CHR 0x0A # ''    '' @ quoted ''chromosome_name'' @ '': ''
               @ encode_string (chromosome_name r) @ '','' @
             CHR 0x0A # ''    '' @ quoted ''end_position'' @ '': ''
               @ str_int (end_position r) @ '','' @
             CHR 0x0A # ''    '' @ quoted ''start_position'' @ '': ''
               @ str_int (start_position r) @
             CHR 0x0A # ''}''"
    unfolding dumps_def sj
    by (simp add: encode_key_samples newline_indent_samples)
  then have "dumps j =
             ''{'' @ CHR 0x0A # ''    '' @ quoted ''all_candidates'' @ '': ''
               @ encode 1 (sort_keys_json (JArr js)) @ '','' @
             CHR 0x0A # ''    '' @ quoted ''chromosome_name'' @ '': ''
               @ encode_string (chromosome_name r) @ '','' @
             CHR 0x0A # ''    '' @ quoted ''end_position'' @ '': ''
               @ str_int (end_position r) @ '','' @
             CHR 0x0A # ''    '' @ quoted ''start_position'' @ '': ''
               @ str_int (start_position r) @
             CHR 0x0A # ''}''"
    unfolding arr_def .
  with js show ?thesis by blast
qed

lemmas fs_simps = path_exists_def path_error_def dir_exists_def strip_slash_def dirname_def
  mkdir_def open_w_def

lemma str_int_samples:
  "str_int 0 = ''0''" "str_int 100 = ''100''" "str_int 5 = ''5''" "str_int 7 = ''7''"
  by (simp_all add: str_int_def str_nat.simps digit_char_def)

lemma sample_write_json:
  "fst (write_json (sample_modules 10 [])
          \<lparr>bam_handler = (), fasta_handler = (), output_dir = ''out/'',
           view_chromosome_name = ''3''\<rparr> 0 100
          \<lparr>chromosome_name = ''3'', start_position = 0, end_position = 100,
           all_candidates = [(''3'', 5, 7)]\<rparr> (sample_world {''out''})) = Inr ()"
  by (simp add: write_json_def Let_def fs_simps sample_simps json_file_name_def
      str_int_samples reprJSON_def)

lemma sample_parse_region_json:
  "fst (parse_region (sample_modules 10 [(''3'', 5, 7), (''3'', 20, 20)])
          \<lparr>bam_handler = (), fasta_handler = (), output_dir = ''out/'',
           view_chromosome_name = ''3''\<rparr> 0 100 True (sample_world {''out''})) =
     Inr \<lparr>chromosome_name = ''3'', start_position = 0, end_position = 100,
          all_candidates = [(''3'', 5, 7), (''3'', 20, 20)]\<rparr>"
  by (simp add: parse_region_def Let_def sample_simps AllCandidatesInRegion_init_def
      add_candidate_to_list_def write_json_def fs_simps json_file_name_def
      str_int_samples reprJSON_def logc_def)

lemma split_path_ne: "split_path p \<noteq> []"
  by (induction p) (simp_all split: list.splits)

lemma split_path_append: "split_path (p @ CHR ''/'' # q) = split_path p @ split_path q"
proof (induction p)
  case Nil
  show ?case by simp
next
  case (Cons c p)
  obtain n ns where ns: "split_path p = n # ns" using split_path_ne [of p] by (cases "split_path p") auto
  show ?case using Cons by (simp add: ns)
qed

lemma path_error_dirs_update: "path_error (w\<lparr>dirs := X\<rparr>) p = path_error w p"
  by (simp add: path_error_def)

lemma path_error_directory:
  assumes "path_error w (d @ CHR ''/'' # n) = None"
  shows "path_error w (d @ ''/'') = None"
proof -
  from assms have nul: "CHR 0x00 \<notin> set (d @ CHR ''/'' # n)"
    and len: "\<not> path_max w \<le> length (d @ CHR ''/'' # n)"
    and names: "\<not> list_ex (\<lambda>x. name_max w < length x) (split_path (d @ CHR ''/'' # n))"
    by (auto simp: path_error_def split: if_splits)
  have "split_path (d @ ''/'') = split_path d @ [[]]"
    using split_path_append [of d "[]"] by simp
  then have "\<not> list_ex (\<lambda>x. name_max w < length x) (split_path (d @ ''/''))"
    using names by (simp add: split_path_append list_ex_iff)
  then show ?thesis using nul len by (simp add: path_error_def)
qed

lemma strip_slash_id: "p \<noteq> [] \<Longrightarrow> last p \<noteq> CHR ''/'' \<Longrightarrow> strip_slash p = p"
  by (cases p rule: rev_cases) (simp_all add: strip_slash_def)

lemma strip_slash_json_output: "strip_slash (q @ ''json_output/'') = q @ ''json_output''"
  by (simp add: strip_slash_def)

lemma dirname_append:
  assumes "d \<noteq> []" and "last d = CHR ''/''" and "name \<noteq> []" and "CHR ''/'' \<notin> set name"
    and "strip_slash p = d @ name"
  shows "dirname p = strip_slash d"
proof -
  obtain d' where d: "d = d' @ [CHR ''/'']"
    using assms(1,2) by (cases d rule: rev_cases) simp_all
  have "dropWhile (\<lambda>c. c \<noteq> CHR ''/'') (rev name @ rev d) =
          dropWhile (\<lambda>c. c \<noteq> CHR ''/'') (rev d)"
    using assms(4) by (intro dropWhile_append2) auto
  also have "\<dots> = rev d" by (simp add: d)
  finally show ?thesis by (simp add: dirname_def assms(5))
qed

lemma digit_char_no_slash: "d < 10 \<Longrightarrow> digit_char d \<noteq> CHR ''/''"
proof -
  assume "d < 10"
  then have "d \<in> {0, 1, 2, 3, 4, 5, 6, 7, 8, 9}" by auto
  then show ?thesis by (auto simp: digit_char_def)
qed

lemma str_nat_no_slash: "CHR ''/'' \<notin> set (str_nat n)"
proof (induction n rule: str_nat.induct)
  case (1 n)
  show ?case
  proof (cases "n < 10")
    case True
    then show ?thesis using digit_char_no_slash [of n] by (subst str_nat.simps) auto
  next
    case False
    have "n mod 10 < 10" by simp
    from digit_char_no_slash [OF this] 1 [OF False] False
    show ?thesis by (subst str_nat.simps) auto
  qed
qed

lemma str_int_no_slash: "CHR ''/'' \<notin> set (str_int i)"
  by (simp add: str_int_def str_nat_no_slash)

lemma json_file_name_no_slash:
  "CHR ''/'' \<notin> set c \<Longrightarrow> CHR ''/'' \<notin> set (json_file_name c s e)"
  by (simp add: json_file_name_def str_int_no_slash)

lemma json_file_name_last:
  "json_file_name c s e \<noteq> [] \<and> last (json_file_name c s e) \<noteq> CHR ''/''"
  by (simp add: json_file_name_def)

lemma parse_region_started: "started (snd (parse_region m v s e j w)) = started w"
proof -
  let ?c = "view_chromosome_name v"
  show ?thesis
  proof (cases "get_reads m (bam_handler v) ?c s e")
    case (Inl err)
    then show ?thesis by (simp add: parse_region_def Let_def)
  next
    case reads: (Inr reads)
    show ?thesis
    proof (cases "CandidateFinder m reads (fasta_handler v) ?c s e")
      case (Inl err)
      then show ?thesis using reads by (simp add: parse_region_def Let_def)
    next
      case wins: (Inr windows)
      let ?w2 = "logc (CallCandidateFinder ?c s e) (logc (CallGetReads ?c s e) w)"
      let ?init = "AllCandidatesInRegion_init ?c s e"
      obtain res w3 where pw: "parse_windows m v windows ?init ?w2 = (res, w3)"
        by (cases "parse_windows m v windows ?init ?w2")
      from parse_windows_frame [of m v windows ?init ?w2] pw
      have s3: "started w3 = started w" by simp
      show ?thesis
      proof (cases res)
        case (Inl err)
        then show ?thesis using pw s3 by (simp add: parse_region_unfold [OF reads wins])
      next
        case (Inr acl)
        obtain x r w4 where wj: "write_json m v s e acl w3 = (x, r, w4)"
          by (cases "write_json m v s e acl w3")
        from write_json_frame [of m v s e acl w3] wj have "started w4 = started w3" by simp
        then show ?thesis using pw Inr s3 wj
          by (cases j; cases x) (simp_all add: parse_region_unfold [OF reads wins])
      qed
    qed
  qed
qed

lemma wcalls_region_call: "x \<in> set (concat (map wcalls ws)) \<Longrightarrow> region_call x"
  by (auto simp: wcalls_def region_call_def)

lemma parse_region_calls_any:
  "\<exists>cs. calls (snd (parse_region m v s e j w)) =
          calls w @ CallGetReads (view_chromosome_name v) s e # cs \<and> list_all region_call cs"
proof -
  let ?c = "view_chromosome_name v"
  show ?thesis
  proof (cases "get_reads m (bam_handler v) ?c s e")
    case (Inl err)
    then show ?thesis by (simp add: parse_region_def Let_def)
  next
    case reads: (Inr reads)
    show ?thesis
    proof (cases "CandidateFinder m reads (fasta_handler v) ?c s e")
      case (Inl err)
      then show ?thesis using reads
        by (intro exI [of _ "[CallCandidateFinder ?c s e]"])
           (simp add: parse_region_def Let_def region_call_def)
    next
      case wins: (Inr windows)
      from parse_region_calls [OF reads wins, of j w] obtain cs where
        cs: "calls (snd (parse_region m v s e j w)) =
               calls w @ [CallGetReads ?c s e, CallCandidateFinder ?c s e] @ cs"
            "set cs \<subseteq> set (concat (map wcalls windows))" by blast
      have "list_all region_call (CallCandidateFinder ?c s e # cs)"
        using cs(2) wcalls_region_call by (auto simp: list_all_iff region_call_def)
      then show ?thesis using cs(1)
        by (intro exI [of _ "CallCandidateFinder ?c s e # cs"]) simp
    qed
  qed
qed

subsection \<open>The segments of a chromosome\<close>

text \<open>
  C1, as the claim states it, fails. The segment length is the ceiling of the quotient
  \<open>whole_length / max_threads\<close> as a double, and a length of 54 bits or more need not
  survive that: for \<open>L = 2 ^ 53 + 1\<close> and \<open>N = 2\<close> the quotient rounds to \<open>2 ^ 52\<close>, so the
  second process starts at 4503599627370496, while the ceiling of \<open>L / N\<close> is
  4503599627370497.
\<close>

theorem do_parallel_large_length_counterexample:
  "get_chr_sequence_length (sample_modules 9007199254740993 []) () ''3'' = Inr 9007199254740993 \<and>
   map args (started_by (sample_world {''out''})
     (snd (do_parallel (sample_modules 9007199254740993 []) ''3'' ''a.bam''
       ''r.fa'' False ''out/'' 2 (sample_world {''out''})))) =
     [(0, 4503599627371496, False), (4503599627370496, 9007199254741992, False)] \<and>
   - ((- 9007199254740993) div 2) = (4503599627370497 :: int) \<and>
   (2 :: int) * (4503599627370497 - 1) < 9007199254740993 \<and>
   (9007199254740993 :: int) \<le> 2 * 4503599627370497"
  by (simp add: do_parallel_def View_init_def ceil_div_samples range_py_def Let_def sample_simps
      logc_def started_by_def upt_rec [of 0] upt_rec [of "Suc 0"] numeral_2_eq_2)

text \<open>
  C1, amended. For a chromosome of length \<open>0 \<le> L < 2 ^ 53\<close> and \<open>N \<ge> 1\<close> segments (with
  \<open>N < 2 ^ 1075\<close>, beyond which the quotient of a positive length rounds to zero), with the
  handlers opening and the length available, \<open>do_parallel\<close> ends normally having started
  exactly \<open>N\<close> processes. With \<open>seg\<close> the ceiling of \<open>L / N\<close> (the integer with
  \<open>N * (seg - 1) < L \<le> N * seg\<close>), process \<open>i\<close> gets the start \<open>i * seg\<close> and the end
  \<open>(i + 1) * seg + 1000\<close>. Every position from 0 to \<open>L\<close> lies in the range of some
  process, and the ranges of two consecutive processes share exactly the 1000 positions
  that follow the start of the second.
\<close>

theorem do_parallel_shard_ranges:
  assumes N: "1 \<le> N" "N < 2 ^ 1075" and L: "0 \<le> L" "L < 2 ^ 53"
    and bam: "BamHandler m bam = Inr b" and ref: "FastaHandler m ref = Inr f"
    and len: "get_chr_sequence_length m f c = Inr L"
    and seg: "seg = - ((- L) div N)"
    and rs: "rs = map args (started_by w (snd (do_parallel m c bam ref j od N w)))"
  shows "fst (do_parallel m c bam ref j od N w) = Inr () \<and>
         N * (seg - 1) < L \<and> L \<le> N * seg \<and>
         length rs = nat N \<and>
         (\<forall>i<nat N. rs ! i = (int i * seg, (int i + 1) * seg + 1000, j)) \<and>
         (\<forall>x. 0 \<le> x \<and> x \<le> L \<longrightarrow> (\<exists>i<nat N. fst (rs ! i) \<le> x \<and> x < fst (snd (rs ! i)))) \<and>
         (\<forall>i. Suc i < nat N \<longrightarrow>
            fst (snd (rs ! i)) - fst (rs ! Suc i) = 1000 \<and>
            {fst (rs ! i)..<fst (snd (rs ! i))} \<inter> {fst (rs ! Suc i)..<fst (snd (rs ! Suc i))} =
              {fst (rs ! Suc i)..<fst (rs ! Suc i) + 1000})"
proof -
  have N0: "0 < N" using N by simp
  have cd: "ceil_div L N = Inr seg" unfolding seg by (rule ceil_div_exact [OF L N])
  have up: "L \<le> N * seg" and low: "N * (seg - 1) < L"
    using ceil_exact_bounds [OF N0, of L] by (simp_all add: seg)
  have seg0: "0 \<le> seg"
  proof (rule ccontr)
    assume "\<not> 0 \<le> seg"
    then have "seg \<le> - 1" by simp
    then have "N * seg \<le> N * (- 1)" using N0 by (simp only: mult_le_cancel_left_pos)
    with up L(1) N0 show False by simp
  qed
  let ?w2 = "logc (CallGetChrSequenceLength c) (logc (CallFastaHandler ref) w)"
  let ?view = "\<lparr>bam_handler = b, fasta_handler = f, output_dir = od, view_chromosome_name = c\<rparr>"
  have un: "do_parallel m c bam ref j od N w =
              do_parallel_loop m c bam ref j od seg (range_py N) ?w2"
    by (rule do_parallel_unfold [OF ref len cd])
  have ok: "fst (do_parallel m c bam ref j od N w) = Inr ()"
    and st: "started (snd (do_parallel m c bam ref j od N w)) =
               started w @ map (\<lambda>i. \<lparr>target = ?view, args = (i * seg, (i + 1) * seg + 1000, j)\<rparr>)
                             (range_py N)"
    using do_parallel_loop_started [OF bam ref, of c j od seg "range_py N" ?w2]
    by (simp_all add: un)
  have rsd: "rs = map (\<lambda>i. (i * seg, (i + 1) * seg + 1000, j)) (range_py N)"
    by (simp add: rs started_by_append [OF st] comp_def)
  have len_rs: "length rs = nat N" by (simp add: rsd range_py_def)
  have nth_rs: "rs ! i = (int i * seg, (int i + 1) * seg + 1000, j)" if "i < nat N" for i
    using that by (simp add: rsd range_py_def)
  have cov: "\<exists>i<nat N. fst (rs ! i) \<le> x \<and> x < fst (snd (rs ! i))" if "0 \<le> x \<and> x \<le> L" for x
  proof -
    from that up have "x \<le> N * seg" by simp
    from cover [OF N0 seg0 _ this] that
    obtain i where "i < nat N" "int i * seg \<le> x" "x < (int i + 1) * seg + 1000" by blast
    then show ?thesis using nth_rs [of i] by auto
  qed
  have ov: "fst (snd (rs ! i)) - fst (rs ! Suc i) = 1000 \<and>
            {fst (rs ! i)..<fst (snd (rs ! i))} \<inter> {fst (rs ! Suc i)..<fst (snd (rs ! Suc i))} =
              {fst (rs ! Suc i)..<fst (rs ! Suc i) + 1000}" if "Suc i < nat N" for i
  proof -
    have i: "i < nat N" using that by simp
    have a: "int i * seg \<le> (int i + 1) * seg" using seg0 by (simp add: algebra_simps)
    have b: "(int i + 1) * seg \<le> (int i + 2) * seg" using seg0 by (simp add: algebra_simps)
    show ?thesis using a b by (auto simp: nth_rs [OF i] nth_rs [OF that] algebra_simps)
  qed
  show ?thesis using ok low up len_rs nth_rs cov ov by blast
qed

text \<open>A chromosome of length 10 in 3 segments: segment length 4, second range 4 to 1008.\<close>

theorem do_parallel_shard_ranges_witness:
  "fst (do_parallel (sample_modules 10 []) ''3'' ''a.bam'' ''r.fa'' False ''out/'' 3
          (sample_world {''out''})) = Inr () \<and>
   length (map args (started_by (sample_world {''out''})
     (snd (do_parallel (sample_modules 10 []) ''3'' ''a.bam'' ''r.fa'' False ''out/'' 3
             (sample_world {''out''}))))) = 3 \<and>
   map args (started_by (sample_world {''out''})
     (snd (do_parallel (sample_modules 10 []) ''3'' ''a.bam'' ''r.fa'' False ''out/'' 3
             (sample_world {''out''})))) ! 1 = (4, 1008, False)"
proof -
  have h1: "(1::int) \<le> 3" "(3::int) < 2 ^ 1075" and h2: "(0::int) \<le> 10" "(10::int) < 2 ^ 53"
    by simp_all
  have h3: "BamHandler (sample_modules 10 []) ''a.bam'' = Inr ()"
    and h4: "FastaHandler (sample_modules 10 []) ''r.fa'' = Inr ()"
    and h5: "get_chr_sequence_length (sample_modules 10 []) () ''3'' = Inr 10"
    by (simp_all add: sample_modules_def)
  have h6: "(4::int) = - ((- 10) div 3)" by simp
  note t = do_parallel_shard_ranges [OF h1 h2 h3 h4 h5 h6 refl,
      where j = False and od = "''out/''" and w = "sample_world {''out''}"]
  from t have a: "fst (do_parallel (sample_modules 10 []) ''3'' ''a.bam'' ''r.fa'' False ''out/'' 3
          (sample_world {''out''})) = Inr ()" by blast
  from t have b: "length (map args (started_by (sample_world {''out''})
     (snd (do_parallel (sample_modules 10 []) ''3'' ''a.bam'' ''r.fa'' False ''out/'' 3
             (sample_world {''out''}))))) = nat 3" by blast
  from t have "\<forall>i<nat 3. map args (started_by (sample_world {''out''})
     (snd (do_parallel (sample_modules 10 []) ''3'' ''a.bam'' ''r.fa'' False ''out/'' 3
             (sample_world {''out''})))) ! i = (int i * 4, (int i + 1) * 4 + 1000, False)" by blast
  then have c: "map args (started_by (sample_world {''out''})
     (snd (do_parallel (sample_modules 10 []) ''3'' ''a.bam'' ''r.fa'' False ''out/'' 3
             (sample_world {''out''})))) ! 1 = (int 1 * 4, (int 1 + 1) * 4 + 1000, False)"
    by (simp del: length_map nth_map)
  show ?thesis using a b c by (simp del: length_map nth_map)
qed

text \<open>
  C7, as the claim states it, fails: with \<open>max_threads = - 1\<close> neither \<open>do_parallel\<close>
  nor the main program ends in an error.
\<close>

theorem do_parallel_negative_count_counterexample:
  "fst (do_parallel (sample_modules 10 []) ''3'' ''a.bam'' ''r.fa'' False ''out/'' (- 1)
          (sample_world {''out''})) = Inr () \<and>
   fst (main (sample_modules 10 []) 
          \<lparr>flag_ref = ''r.fa'', flag_bam = ''a.bam'', flag_chromosome_name = ''3'',
           flag_max_threads = - 1, flag_test = False, flag_json = False,
           flag_output_dir = ''out''\<rparr> (sample_world {})) = Inr None"
  by (simp add: main_def do_parallel_def View_init_def float_simps range_py_def Let_def
      sample_simps path_exists_def path_error_def dir_exists_def strip_slash_def mkdir_def
      dirname_def logc_def)

text \<open>
  C7, amended. For a count \<open>N \<le> 0\<close> no process is started. For \<open>N = 0\<close> the run ends in
  an error, which is the \<open>ZeroDivisionError\<close> of the segment length once the reference has
  been opened and the length read. For \<open>N < 0\<close> the loop body never runs and
  \<open>do_parallel\<close> ends normally; the one other outcome is the \<open>OverflowError\<close> of the
  quotient, which takes a length of \<open>2 ^ 1023\<close> or more.
\<close>

theorem do_parallel_nonpositive:
  assumes "N \<le> 0"
  shows "started (snd (do_parallel m c bam ref j od N w)) = started w \<and>
         (N = 0 \<longrightarrow> (\<exists>e. fst (do_parallel m c bam ref j od N w) = Inl e)) \<and>
         (\<forall>f L. FastaHandler m ref = Inr f \<and> get_chr_sequence_length m f c = Inr L \<longrightarrow>
            (N = 0 \<longrightarrow> fst (do_parallel m c bam ref j od N w) = Inl ZeroDivisionError) \<and>
            (N < 0 \<and> \<bar>L\<bar> < 2 ^ 1023 \<longrightarrow> fst (do_parallel m c bam ref j od N w) = Inr ()) \<and>
            (N < 0 \<longrightarrow> fst (do_parallel m c bam ref j od N w) = Inr () \<or>
                       fst (do_parallel m c bam ref j od N w) = Inl OverflowError))"
proof -
  have a: "started (snd (do_parallel m c bam ref j od N w)) = started w"
    by (rule do_parallel_nonpos_started [OF assms])
  have b: "N = 0 \<longrightarrow> (\<exists>e. fst (do_parallel m c bam ref j od N w) = Inl e)"
    by (simp add: do_parallel_def Let_def ceil_div_zero split: sum.splits)
  have c: "fst (do_parallel m c bam ref j od N w) = Inl ZeroDivisionError"
    if "FastaHandler m ref = Inr f" "get_chr_sequence_length m f c = Inr L" "N = 0" for f L
    using that by (simp add: do_parallel_def Let_def ceil_div_zero)
  have r: "fst (do_parallel m c bam ref j od N w) = Inr ()"
    if "FastaHandler m ref = Inr f" "get_chr_sequence_length m f c = Inr L" "N < 0"
      "ceil_div L N = Inr seg" for f L seg
    using that by (simp add: do_parallel_def Let_def range_py_def)
  have d: "fst (do_parallel m c bam ref j od N w) = Inr ()"
    if f: "FastaHandler m ref = Inr f" "get_chr_sequence_length m f c = Inr L"
      and n: "N < 0" and l: "\<bar>L\<bar> < 2 ^ 1023" for f L
  proof -
    have "N \<noteq> 0" using n by simp
    from ceil_div_total [OF this l] obtain seg where "ceil_div L N = Inr seg" by blast
    from r [OF f n this] show ?thesis .
  qed
  have e: "fst (do_parallel m c bam ref j od N w) = Inr () \<or>
           fst (do_parallel m c bam ref j od N w) = Inl OverflowError"
    if f: "FastaHandler m ref = Inr f" "get_chr_sequence_length m f c = Inr L"
      and n: "N < 0" for f L
  proof -
    have "N \<noteq> 0" using n by simp
    from ceil_div_cases [OF this, of L] show ?thesis
    proof
      assume "\<exists>seg. ceil_div L N = Inr seg"
      then obtain seg where "ceil_div L N = Inr seg" by blast
      from r [OF f n this] show ?thesis by simp
    next
      assume "ceil_div L N = Inl OverflowError"
      then show ?thesis using f by (simp add: do_parallel_def Let_def)
    qed
  qed
  show ?thesis using a b c d e by blast
qed

text \<open>Counts 0 and \<open>- 2\<close> on a chromosome of length 10.\<close>

theorem do_parallel_nonpositive_witness:
  "started (snd (do_parallel (sample_modules 10 []) ''3'' ''a.bam'' ''r.fa'' False ''out/'' 0
          (sample_world {''out''}))) = [] \<and>
   fst (do_parallel (sample_modules 10 []) ''3'' ''a.bam'' ''r.fa'' False ''out/'' 0
          (sample_world {''out''})) = Inl ZeroDivisionError \<and>
   started (snd (do_parallel (sample_modules 10 []) ''3'' ''a.bam'' ''r.fa'' False ''out/'' (- 2)
          (sample_world {''out''}))) = [] \<and>
   fst (do_parallel (sample_modules 10 []) ''3'' ''a.bam'' ''r.fa'' False ''out/'' (- 2)
          (sample_world {''out''})) = Inr ()"
proof -
  have h0: "(0::int) \<le> 0" and h2: "(- 2::int) \<le> 0" by simp_all
  have f: "FastaHandler (sample_modules 10 []) ''r.fa'' = Inr () \<and>
           get_chr_sequence_length (sample_modules 10 []) () ''3'' = Inr 10"
    by (simp add: sample_modules_def)
  have s: "started (sample_world {''out''}) = []" by (simp add: sample_world_def)
  note t0 = do_parallel_nonpositive [OF h0, of "sample_modules 10 []" "''3''" "''a.bam''"
      "''r.fa''" False "''out/''" "sample_world {''out''}"]
  note t2 = do_parallel_nonpositive [OF h2, of "sample_modules 10 []" "''3''" "''a.bam''"
      "''r.fa''" False "''out/''" "sample_world {''out''}"]
  show ?thesis using t0 t2 f s by auto
qed

text \<open>
  C9. For \<open>N \<ge> 1\<close>, with the handlers opening and a length available whose quotient
  by \<open>N\<close> a double can hold (any length below \<open>2 ^ 1023\<close> in absolute value), \<open>do_parallel\<close>
  ends normally with \<open>N\<close> processes started, and it does nothing else: the file system is
  as before, and the only collaborator calls it made are the handler constructors and the
  length query, so no step of a started process has been run or waited for. Its success
  says nothing about the processes: when the alignment file cannot be read, every one of
  the started calls of \<open>parse_region\<close> ends in an error.
\<close>

theorem do_parallel_fire_and_forget:
  assumes N: "1 \<le> N"
    and bam: "BamHandler m bam = Inr b" and ref: "FastaHandler m ref = Inr f"
    and len: "get_chr_sequence_length m f c = Inr L" and float: "\<bar>L\<bar> < 2 ^ 1023"
    and w': "w' = snd (do_parallel m c bam ref j od N w)"
  shows "fst (do_parallel m c bam ref j od N w) = Inr () \<and>
         length (started_by w w') = nat N \<and>
         dirs w' = dirs w \<and> files w' = files w \<and>
         set (calls_by w w') \<subseteq>
           {CallBamHandler bam, CallFastaHandler ref, CallGetChrSequenceLength c} \<and>
         ((\<forall>h ch s e. \<exists>err. get_reads m h ch s e = Inl err) \<longrightarrow>
            (\<forall>p \<in> set (started_by w w'). \<forall>w''. \<exists>err.
               fst (parse_region m (target p) (fst (args p)) (fst (snd (args p)))
                      (snd (snd (args p))) w'') = Inl err))"
proof -
  have N0: "N \<noteq> 0" using N by simp
  let ?w2 = "logc (CallGetChrSequenceLength c) (logc (CallFastaHandler ref) w)"
  from ceil_div_total [OF N0 float] obtain seg where seg: "ceil_div L N = Inr seg" by blast
  have un: "do_parallel m c bam ref j od N w =
              do_parallel_loop m c bam ref j od seg (range_py N) ?w2"
    by (rule do_parallel_unfold [OF ref len seg])
  from do_parallel_loop_started [OF bam ref, of c j od seg "range_py N" ?w2]
  have ok: "fst (do_parallel m c bam ref j od N w) = Inr ()"
    and st: "started w' = started w @
               map (\<lambda>i. \<lparr>target = \<lparr>bam_handler = b, fasta_handler = f, output_dir = od,
                                     view_chromosome_name = c\<rparr>,
                           args = (i * seg, (i + 1) * seg + 1000, j)\<rparr>) (range_py N)"
    by (simp_all add: un w')
  have n: "length (started_by w w') = nat N"
    by (simp add: started_by_append [OF st] range_py_def)
  from do_parallel_frame [of m c bam ref j od N w] obtain cs where
    fr: "dirs w' = dirs w" "files w' = files w" "calls w' = calls w @ cs"
        "set cs \<subseteq> {CallBamHandler bam, CallFastaHandler ref, CallGetChrSequenceLength c}"
    by (auto simp: w')
  have cb: "set (calls_by w w') \<subseteq>
              {CallBamHandler bam, CallFastaHandler ref, CallGetChrSequenceLength c}"
    using fr by (simp add: calls_by_append [OF fr(3)])
  have fail: "\<exists>err. fst (parse_region m (target p) (fst (args p)) (fst (snd (args p)))
                            (snd (snd (args p))) w'') = Inl err"
    if all: "\<forall>h ch s e. \<exists>err. get_reads m h ch s e = Inl err" for p w''
  proof -
    from all obtain err where
      "get_reads m (bam_handler (target p)) (view_chromosome_name (target p))
         (fst (args p)) (fst (snd (args p))) = Inl err" by blast
    from parse_region_no_reads [OF this] show ?thesis by blast
  qed
  show ?thesis using ok n fr(1,2) cb fail by blast
qed

text \<open>Three processes started on an alignment file that cannot be read.\<close>

theorem do_parallel_fire_and_forget_witness:
  "fst (do_parallel (unavailable_modules 10) ''3'' ''a.bam'' ''r.fa'' True ''out/'' 3
          (sample_world {''out''})) = Inr () \<and>
   length (started_by (sample_world {''out''})
     (snd (do_parallel (unavailable_modules 10) ''3'' ''a.bam'' ''r.fa'' True ''out/'' 3
             (sample_world {''out''})))) = 3 \<and>
   (\<forall>w''. \<exists>err.
      fst (parse_region (unavailable_modules 10)
             (target (started_by (sample_world {''out''})
                (snd (do_parallel (unavailable_modules 10) ''3'' ''a.bam'' ''r.fa'' True ''out/'' 3
                        (sample_world {''out''}))) ! 1))
             (fst (args (started_by (sample_world {''out''})
                (snd (do_parallel (unavailable_modules 10) ''3'' ''a.bam'' ''r.fa'' True ''out/'' 3
                        (sample_world {''out''}))) ! 1)))
             (fst (snd (args (started_by (sample_world {''out''})
                (snd (do_parallel (unavailable_modules 10) ''3'' ''a.bam'' ''r.fa'' True ''out/'' 3
                        (sample_world {''out''}))) ! 1))))
             (snd (snd (args (started_by (sample_world {''out''})
                (snd (do_parallel (unavailable_modules 10) ''3'' ''a.bam'' ''r.fa'' True ''out/'' 3
                        (sample_world {''out''}))) ! 1))))
             w'') = Inl err)"
  (is "?A \<and> length ?ps = 3 \<and> ?C")
proof -
  have h1: "(1::int) \<le> 3" by simp
  have h3: "BamHandler (unavailable_modules 10) ''a.bam'' = Inr ()"
    and h4: "FastaHandler (unavailable_modules 10) ''r.fa'' = Inr ()"
    and h5: "get_chr_sequence_length (unavailable_modules 10) () ''3'' = Inr 10"
    and h6: "\<forall>h ch s e. \<exists>err. get_reads (unavailable_modules 10) h ch s e = Inl err"
    by (simp_all add: sample_modules_def unavailable_modules_def)
  have hf: "\<bar>10::int\<bar> < 2 ^ 1023" by simp
  note t = do_parallel_fire_and_forget [OF h1 h3 h4 h5 hf refl,
      where j = True and od = "''out/''" and w = "sample_world {''out''}"]
  from t have a: ?A by blast
  from t have b: "length ?ps = 3" by simp
  then have mem: "?ps ! 1 \<in> set ?ps" by simp
  from t h6 have "\<forall>p \<in> set ?ps. \<forall>w''. \<exists>err.
      fst (parse_region (unavailable_modules 10) (target p) (fst (args p)) (fst (snd (args p)))
             (snd (snd (args p))) w'') = Inl err" by blast
  from this [rule_format, OF mem] have c: ?C by blast
  show ?thesis using a b c by blast
qed

subsection \<open>One region\<close>

text \<open>
  C2. In a run of \<open>parse_region\<close> whose reads and windows were obtained, every request for
  a reference sequence or for pileup columns is for a window \<open>(c, window_start, window_end)\<close>
  of the detector and spans \<open>window_start\<close> to \<open>window_end + 1\<close>. When the run ends normally
  the calls made are, after the two that obtain reads and windows, for every window in
  turn: the reference sequence and the pileup columns over that span, then the allele
  finder on the window itself. The span is the one the data come from: the run without
  JSON output ends normally exactly when, for every window, the reference source and the
  alignment source answer for \<open>window_start\<close> to \<open>window_end + 1\<close> and the allele finder
  accepts what they gave; and every candidate list of a run that ended normally was made
  from the sequence and the pileup columns of that span.
\<close>

theorem parse_region_fetch_spans:
  assumes reads: "get_reads m (bam_handler v) (view_chromosome_name v) s e = Inr reads"
    and wins: "CandidateFinder m reads (fasta_handler v) (view_chromosome_name v) s e = Inr windows"
  shows "(\<forall>r. fst (parse_region m v s e j w) = Inr r \<longrightarrow>
            calls_by w (snd (parse_region m v s e j w)) =
              [CallGetReads (view_chromosome_name v) s e,
               CallCandidateFinder (view_chromosome_name v) s e] @
              concat (map (\<lambda>(c, window_start, window_end).
                        [CallGetSequence c window_start (window_end + 1),
                         CallGetPileupcolumns c window_start (window_end + 1),
                         CallAlleleFinder c window_start window_end]) windows)) \<and>
         (\<forall>x \<in> set (calls_by w (snd (parse_region m v s e j w))). \<forall>c a z.
            x = CallGetSequence c a z \<or> x = CallGetPileupcolumns c a z \<longrightarrow>
            (\<exists>window_end. (c, a, window_end) \<in> set windows \<and> z = window_end + 1)) \<and>
         ((\<exists>r. fst (parse_region m v s e False w) = Inr r) \<longleftrightarrow>
          (\<forall>x \<in> set windows. \<exists>sq pl cand.
              get_sequence m (fasta_handler v) (fst x) (fst (snd x)) (snd (snd x) + 1) = Inr sq \<and>
              get_pileupcolumns_aligned_to_a_region m (bam_handler v) (fst x) (fst (snd x))
                (snd (snd x) + 1) = Inr pl \<and>
              AlleleFinder m (fst x) (fst (snd x)) (snd (snd x)) pl sq = Inr cand)) \<and>
         (\<forall>r. fst (parse_region m v s e j w) = Inr r \<longrightarrow>
            list_all2 (\<lambda>x cand. \<exists>sq pl.
              get_sequence m (fasta_handler v) (fst x) (fst (snd x)) (snd (snd x) + 1) = Inr sq \<and>
              get_pileupcolumns_aligned_to_a_region m (bam_handler v) (fst x) (fst (snd x))
                (snd (snd x) + 1) = Inr pl \<and>
              AlleleFinder m (fst x) (fst (snd x)) (snd (snd x)) pl sq = Inr cand) windows (all_candidates r))"
proof -
  let ?Q = "(\<lambda>x cand. \<exists>sq pl.
              get_sequence m (fasta_handler v) (fst x) (fst (snd x)) (snd (snd x) + 1) = Inr sq \<and>
              get_pileupcolumns_aligned_to_a_region m (bam_handler v) (fst x) (fst (snd x))
                (snd (snd x) + 1) = Inr pl \<and>
              AlleleFinder m (fst x) (fst (snd x)) (snd (snd x)) pl sq = Inr cand)"
  have wc: "wcalls = (\<lambda>(c, window_start, window_end).
                        [CallGetSequence c window_start (window_end + 1),
                         CallGetPileupcolumns c window_start (window_end + 1),
                         CallAlleleFinder c window_start window_end])"
    by (rule ext) (simp add: wcalls_def)
  note pc = parse_region_calls [OF reads wins, of j w]
  have a: "calls_by w (snd (parse_region m v s e j w)) =
              [CallGetReads (view_chromosome_name v) s e,
               CallCandidateFinder (view_chromosome_name v) s e] @ concat (map wcalls windows)"
    if "fst (parse_region m v s e j w) = Inr r" for r
    using pc that by (simp add: calls_by_def)
  from pc obtain cs where
    cs: "calls_by w (snd (parse_region m v s e j w)) =
           [CallGetReads (view_chromosome_name v) s e,
            CallCandidateFinder (view_chromosome_name v) s e] @ cs"
        "set cs \<subseteq> set (concat (map wcalls windows))"
    by (auto simp: calls_by_def)
  have b: "\<exists>window_end. (c, a, window_end) \<in> set windows \<and> z = window_end + 1"
    if "x \<in> set (calls_by w (snd (parse_region m v s e j w)))"
      and "x = CallGetSequence c a z \<or> x = CallGetPileupcolumns c a z" for x c a z
  proof -
    from that cs have "x \<in> set (concat (map wcalls windows))" by auto
    then obtain y where "y \<in> set windows" "x \<in> set (wcalls y)" by auto
    then show ?thesis using that(2) by (cases y) (auto simp: wcalls_def)
  qed
  have Q: "?Q = from_span m v" by (rule ext, rule ext) (simp add: from_span_def)
  have d: "list_all2 ?Q windows (all_candidates r)"
    if "fst (parse_region m v s e j' w) = Inr r" for r j'
    using parse_region_list_all2 [OF reads wins that] by (simp only: Q)
  have c1: "\<forall>x \<in> set windows. \<exists>cand. ?Q x cand"
    if "\<exists>r. fst (parse_region m v s e False w) = Inr r"
  proof -
    from that obtain r where "fst (parse_region m v s e False w) = Inr r" by blast
    from list_all2_ex [OF d [OF this]] show ?thesis .
  qed
  have c2: "\<exists>r. fst (parse_region m v s e False w) = Inr r"
    if "\<forall>x \<in> set windows. \<exists>cand. ?Q x cand"
  proof -
    from ex_list_all2 [OF that] obtain cands where "list_all2 ?Q windows cands" by blast
    then have "list_all2 (from_span m v) windows cands" by (simp only: Q)
    from parse_region_total [OF reads wins this, of w] show ?thesis by simp
  qed
  have c: "(\<exists>r. fst (parse_region m v s e False w) = Inr r) \<longleftrightarrow>
          (\<forall>x \<in> set windows. \<exists>sq pl cand.
              get_sequence m (fasta_handler v) (fst x) (fst (snd x)) (snd (snd x) + 1) = Inr sq \<and>
              get_pileupcolumns_aligned_to_a_region m (bam_handler v) (fst x) (fst (snd x))
                (snd (snd x) + 1) = Inr pl \<and>
              AlleleFinder m (fst x) (fst (snd x)) (snd (snd x)) pl sq = Inr cand)"
  proof
    assume "\<exists>r. fst (parse_region m v s e False w) = Inr r"
    from c1 [OF this] show "\<forall>x \<in> set windows. \<exists>sq pl cand.
              get_sequence m (fasta_handler v) (fst x) (fst (snd x)) (snd (snd x) + 1) = Inr sq \<and>
              get_pileupcolumns_aligned_to_a_region m (bam_handler v) (fst x) (fst (snd x))
                (snd (snd x) + 1) = Inr pl \<and>
              AlleleFinder m (fst x) (fst (snd x)) (snd (snd x)) pl sq = Inr cand" by blast
  next
    assume "\<forall>x \<in> set windows. \<exists>sq pl cand.
              get_sequence m (fasta_handler v) (fst x) (fst (snd x)) (snd (snd x) + 1) = Inr sq \<and>
              get_pileupcolumns_aligned_to_a_region m (bam_handler v) (fst x) (fst (snd x))
                (snd (snd x) + 1) = Inr pl \<and>
              AlleleFinder m (fst x) (fst (snd x)) (snd (snd x)) pl sq = Inr cand"
    then have "\<forall>x \<in> set windows. \<exists>cand. ?Q x cand" by blast
    from c2 [OF this] show "\<exists>r. fst (parse_region m v s e False w) = Inr r" .
  qed
  have A: "\<forall>r. fst (parse_region m v s e j w) = Inr r \<longrightarrow>
            calls_by w (snd (parse_region m v s e j w)) =
              [CallGetReads (view_chromosome_name v) s e,
               CallCandidateFinder (view_chromosome_name v) s e] @ concat (map wcalls windows)"
    using a by blast
  have B: "\<forall>x \<in> set (calls_by w (snd (parse_region m v s e j w))). \<forall>c a z.
            x = CallGetSequence c a z \<or> x = CallGetPileupcolumns c a z \<longrightarrow>
            (\<exists>window_end. (c, a, window_end) \<in> set windows \<and> z = window_end + 1)"
    using b by blast
  have D: "\<forall>r. fst (parse_region m v s e j w) = Inr r \<longrightarrow>
             list_all2 ?Q windows (all_candidates r)"
    using d by blast
  show ?thesis unfolding wc [symmetric] by (intro conjI A B c D)
qed

text \<open>Two windows, 5 to 7 and 20 to 20: the requests span 5 to 8 and 20 to 21.\<close>

theorem parse_region_fetch_spans_witness:
  "calls_by (sample_world {''out''})
     (snd (parse_region (sample_modules 10 [(''3'', 5, 7), (''3'', 20, 20)])
          \<lparr>bam_handler = (), fasta_handler = (), output_dir = ''out/'',
           view_chromosome_name = ''3''\<rparr> 0 100 False (sample_world {''out''}))) =
     [CallGetReads ''3'' 0 100, CallCandidateFinder ''3'' 0 100,
      CallGetSequence ''3'' 5 8, CallGetPileupcolumns ''3'' 5 8, CallAlleleFinder ''3'' 5 7,
      CallGetSequence ''3'' 20 21, CallGetPileupcolumns ''3'' 20 21, CallAlleleFinder ''3'' 20 20] \<and>
   (\<exists>r. fst (parse_region (sample_modules 10 [(''3'', 5, 7), (''3'', 20, 20)])
          \<lparr>bam_handler = (), fasta_handler = (), output_dir = ''out/'',
           view_chromosome_name = ''3''\<rparr> 0 100 False (sample_world {''out''})) = Inr r)"
proof -
  let ?m = "sample_modules 10 [(''3'', 5, 7), (''3'', 20, 20)]"
  let ?v = "\<lparr>bam_handler = (), fasta_handler = (), output_dir = ''out/'',
             view_chromosome_name = ''3''\<rparr>"
  have h1: "get_reads ?m (bam_handler ?v) (view_chromosome_name ?v) 0 100 = Inr ()"
    and h2: "CandidateFinder ?m () (fasta_handler ?v) (view_chromosome_name ?v) 0 100 =
               Inr [(''3'', 5, 7), (''3'', 20, 20)]"
    by (simp_all add: sample_modules_def)
  note t = parse_region_fetch_spans [OF h1 h2, where j = False and w = "sample_world {''out''}"]
  from t [THEN conjunct1, rule_format, OF sample_parse_region]
  have a: "calls_by (sample_world {''out''})
     (snd (parse_region ?m ?v 0 100 False (sample_world {''out''}))) =
     [CallGetReads ''3'' 0 100, CallCandidateFinder ''3'' 0 100,
      CallGetSequence ''3'' 5 8, CallGetPileupcolumns ''3'' 5 8, CallAlleleFinder ''3'' 5 7,
      CallGetSequence ''3'' 20 21, CallGetPileupcolumns ''3'' 20 21, CallAlleleFinder ''3'' 20 20]"
    by simp
  have all: "\<forall>x \<in> set [(''3'', 5::int, 7::int), (''3'', 20, 20)]. \<exists>sq pl cand.
       get_sequence ?m (fasta_handler ?v) (fst x) (fst (snd x)) (snd (snd x) + 1) = Inr sq \<and>
       get_pileupcolumns_aligned_to_a_region ?m (bam_handler ?v) (fst x) (fst (snd x))
         (snd (snd x) + 1) = Inr pl \<and>
       AlleleFinder ?m (fst x) (fst (snd x)) (snd (snd x)) pl sq = Inr cand"
    by (simp add: sample_modules_def)
  from t [THEN conjunct2, THEN conjunct2, THEN conjunct1, THEN iffD2, OF all]
  have b: "\<exists>r. fst (parse_region ?m ?v 0 100 False (sample_world {''out''})) = Inr r" .
  show ?thesis using a b by (rule conjI)
qed

text \<open>
  C3. When \<open>parse_region\<close> ends normally, the list \<open>all_candidates\<close> of the region object
  has one entry per window of the detector, and entry \<open>i\<close> is the candidate list the
  allele finder gave for window \<open>i\<close> from the sequence and pileup columns fetched for it.
  And it does end normally whenever every window has such a candidate list: given lists
  \<open>cands\<close> matching the windows one by one, the run without JSON output ends with the region
  object whose \<open>all_candidates\<close> is \<open>cands\<close>, and the run with JSON output ends with the same
  object unless the write fails, with an error of the file system or of the encoding of
  the candidate lists.
\<close>

theorem parse_region_window_order:
  assumes reads: "get_reads m (bam_handler v) (view_chromosome_name v) s e = Inr reads"
    and wins: "CandidateFinder m reads (fasta_handler v) (view_chromosome_name v) s e = Inr windows"
  shows "(\<forall>r. fst (parse_region m v s e j w) = Inr r \<longrightarrow>
           length (all_candidates r) = length windows \<and>
           (\<forall>i<length windows. \<exists>sq pl.
              get_sequence m (fasta_handler v) (fst (windows ! i)) (fst (snd (windows ! i)))
                (snd (snd (windows ! i)) + 1) = Inr sq \<and>
              get_pileupcolumns_aligned_to_a_region m (bam_handler v) (fst (windows ! i))
                (fst (snd (windows ! i))) (snd (snd (windows ! i)) + 1) = Inr pl \<and>
              AlleleFinder m (fst (windows ! i)) (fst (snd (windows ! i))) (snd (snd (windows ! i)))
                pl sq = Inr (all_candidates r ! i))) \<and>
         (\<forall>cands. list_all2 (\<lambda>x cand. \<exists>sq pl.
              get_sequence m (fasta_handler v) (fst x) (fst (snd x)) (snd (snd x) + 1) = Inr sq \<and>
              get_pileupcolumns_aligned_to_a_region m (bam_handler v) (fst x) (fst (snd x))
                (snd (snd x) + 1) = Inr pl \<and>
              AlleleFinder m (fst x) (fst (snd x)) (snd (snd x)) pl sq = Inr cand) windows cands \<longrightarrow>
            fst (parse_region m v s e False w) =
              Inr \<lparr>chromosome_name = view_chromosome_name v, start_position = s,
                   end_position = e, all_candidates = cands\<rparr> \<and>
            (fst (parse_region m v s e True w) =
               Inr \<lparr>chromosome_name = view_chromosome_name v, start_position = s,
                    end_position = e, all_candidates = cands\<rparr> \<or>
             (\<exists>err. fst (parse_region m v s e True w) = Inl err \<and>
                (fs_error err \<or>
                 reprJSON m \<lparr>chromosome_name = view_chromosome_name v, start_position = s,
                             end_position = e, all_candidates = cands\<rparr> = Inl err))))"
proof -
  let ?Q = "(\<lambda>x cand. \<exists>sq pl.
              get_sequence m (fasta_handler v) (fst x) (fst (snd x)) (snd (snd x) + 1) = Inr sq \<and>
              get_pileupcolumns_aligned_to_a_region m (bam_handler v) (fst x) (fst (snd x))
                (snd (snd x) + 1) = Inr pl \<and>
              AlleleFinder m (fst x) (fst (snd x)) (snd (snd x)) pl sq = Inr cand)"
  have Q: "?Q = from_span m v" by (rule ext, rule ext) (simp add: from_span_def)
  have a: "length (all_candidates r) = length windows \<and>
           (\<forall>i<length windows. \<exists>sq pl.
              get_sequence m (fasta_handler v) (fst (windows ! i)) (fst (snd (windows ! i)))
                (snd (snd (windows ! i)) + 1) = Inr sq \<and>
              get_pileupcolumns_aligned_to_a_region m (bam_handler v) (fst (windows ! i))
                (fst (snd (windows ! i))) (snd (snd (windows ! i)) + 1) = Inr pl \<and>
              AlleleFinder m (fst (windows ! i)) (fst (snd (windows ! i))) (snd (snd (windows ! i)))
                pl sq = Inr (all_candidates r ! i))"
    if ok: "fst (parse_region m v s e j w) = Inr r" for r
  proof -
    from parse_region_list_all2 [OF reads wins ok]
    have l: "list_all2 ?Q windows (all_candidates r)" by (simp only: Q)
    from l have len: "length windows = length (all_candidates r)" by (rule list_all2_lengthD)
    have "?Q (windows ! i) (all_candidates r ! i)" if "i < length windows" for i
      using list_all2_nthD [OF l that] .
    then show ?thesis using len by simp
  qed
  have b: "fst (parse_region m v s e False w) =
              Inr \<lparr>chromosome_name = view_chromosome_name v, start_position = s,
                   end_position = e, all_candidates = cands\<rparr> \<and>
            (fst (parse_region m v s e True w) =
               Inr \<lparr>chromosome_name = view_chromosome_name v, start_position = s,
                    end_position = e, all_candidates = cands\<rparr> \<or>
             (\<exists>err. fst (parse_region m v s e True w) = Inl err \<and>
                (fs_error err \<or>
                 reprJSON m \<lparr>chromosome_name = view_chromosome_name v, start_position = s,
                             end_position = e, all_candidates = cands\<rparr> = Inl err)))"
    if all': "list_all2 ?Q windows cands" for cands
  proof -
    from all' have all: "list_all2 (from_span m v) windows cands" by (simp only: Q)
    let ?c = "view_chromosome_name v"
    let ?w2 = "logc (CallCandidateFinder ?c s e) (logc (CallGetReads ?c s e) w)"
    let ?r = "\<lparr>chromosome_name = ?c, start_position = s, end_position = e,
                all_candidates = cands\<rparr>"
    have f: "fst (parse_region m v s e False w) = Inr ?r"
      by (simp add: parse_region_total [OF reads wins all])
    have pw: "parse_windows m v windows (AllCandidatesInRegion_init ?c s e) ?w2 =
                (Inr ?r, ?w2\<lparr>calls := calls ?w2 @ concat (map wcalls windows)\<rparr>)"
      by (simp add: parse_windows_total [OF all] AllCandidatesInRegion_init_def)
    let ?w3 = "?w2\<lparr>calls := calls ?w2 @ concat (map wcalls windows)\<rparr>"
    obtain x r' w4 where wj: "write_json m v s e ?r ?w3 = (x, r', w4)"
      by (cases "write_json m v s e ?r ?w3")
    from write_json_region [of m v s e ?r ?w3] wj have r': "r' = ?r" by simp
    have t: "fst (parse_region m v s e True w) = Inr ?r \<or>
             (\<exists>err. fst (parse_region m v s e True w) = Inl err \<and>
                (fs_error err \<or> reprJSON m ?r = Inl err))"
    proof (cases x)
      case (Inl err)
      with write_json_error [of m v s e ?r ?w3 err] wj
      have "fs_error err \<or> reprJSON m ?r = Inl err" by simp
      then show ?thesis using Inl wj pw by (simp add: parse_region_unfold [OF reads wins])
    next
      case (Inr u)
      then show ?thesis using wj r' pw by (simp add: parse_region_unfold [OF reads wins])
    qed
    show ?thesis using f t by blast
  qed
  from a have A: "\<forall>r. fst (parse_region m v s e j w) = Inr r \<longrightarrow>
           length (all_candidates r) = length windows \<and>
           (\<forall>i<length windows. \<exists>sq pl.
              get_sequence m (fasta_handler v) (fst (windows ! i)) (fst (snd (windows ! i)))
                (snd (snd (windows ! i)) + 1) = Inr sq \<and>
              get_pileupcolumns_aligned_to_a_region m (bam_handler v) (fst (windows ! i))
                (fst (snd (windows ! i))) (snd (snd (windows ! i)) + 1) = Inr pl \<and>
              AlleleFinder m (fst (windows ! i)) (fst (snd (windows ! i))) (snd (snd (windows ! i)))
                pl sq = Inr (all_candidates r ! i))" by blast
  from b have B: "\<forall>cands. list_all2 ?Q windows cands \<longrightarrow>
            fst (parse_region m v s e False w) =
              Inr \<lparr>chromosome_name = view_chromosome_name v, start_position = s,
                   end_position = e, all_candidates = cands\<rparr> \<and>
            (fst (parse_region m v s e True w) =
               Inr \<lparr>chromosome_name = view_chromosome_name v, start_position = s,
                    end_position = e, all_candidates = cands\<rparr> \<or>
             (\<exists>err. fst (parse_region m v s e True w) = Inl err \<and>
                (fs_error err \<or>
                 reprJSON m \<lparr>chromosome_name = view_chromosome_name v, start_position = s,
                             end_position = e, all_candidates = cands\<rparr> = Inl err)))" by blast
  show ?thesis by (intro conjI A B)
qed

text \<open>Two windows, 5 to 7 and 20 to 20: the run ends with their two candidate lists in that order.\<close>

theorem parse_region_window_order_witness:
  "fst (parse_region (sample_modules 10 [(''3'', 5, 7), (''3'', 20, 20)])
          \<lparr>bam_handler = (), fasta_handler = (), output_dir = ''out/'',
           view_chromosome_name = ''3''\<rparr> 0 100 False (sample_world {''out''})) =
     Inr \<lparr>chromosome_name = ''3'', start_position = 0, end_position = 100,
          all_candidates = [(''3'', 5, 7), (''3'', 20, 20)]\<rparr>"
proof -
  let ?m = "sample_modules 10 [(''3'', 5, 7), (''3'', 20, 20)]"
  let ?v = "\<lparr>bam_handler = (), fasta_handler = (), output_dir = ''out/'',
             view_chromosome_name = ''3''\<rparr>"
  have h1: "get_reads ?m (bam_handler ?v) (view_chromosome_name ?v) 0 100 = Inr ()"
    and h2: "CandidateFinder ?m () (fasta_handler ?v) (view_chromosome_name ?v) 0 100 =
               Inr [(''3'', 5, 7), (''3'', 20, 20)]"
    by (simp_all add: sample_modules_def)
  note t = parse_region_window_order [OF h1 h2, where j = False and w = "sample_world {''out''}"]
  have all: "list_all2 (\<lambda>x cand. \<exists>sq pl.
       get_sequence ?m (fasta_handler ?v) (fst x) (fst (snd x)) (snd (snd x) + 1) = Inr sq \<and>
       get_pileupcolumns_aligned_to_a_region ?m (bam_handler ?v) (fst x) (fst (snd x))
         (snd (snd x) + 1) = Inr pl \<and>
       AlleleFinder ?m (fst x) (fst (snd x)) (snd (snd x)) pl sq = Inr cand)
     [(''3'', 5, 7), (''3'', 20, 20)] [(''3'', 5, 7), (''3'', 20, 20)]"
    by (simp add: sample_modules_def)
  from t [THEN conjunct2, rule_format, OF all, THEN conjunct1] show ?thesis by simp
qed

text \<open>
  C4. When the detector finds no window, \<open>parse_region\<close> makes no further collaborator
  call. Without JSON output it ends normally with the region object that carries the
  chromosome name, start and end and an empty candidate list; with JSON output it ends
  with the same object unless writing the file fails with an error of the file system.
\<close>

theorem parse_region_no_windows:
  assumes reads: "get_reads m (bam_handler v) (view_chromosome_name v) s e = Inr reads"
    and wins: "CandidateFinder m reads (fasta_handler v) (view_chromosome_name v) s e = Inr []"
  shows "fst (parse_region m v s e False w) =
           Inr \<lparr>chromosome_name = view_chromosome_name v, start_position = s, end_position = e,
                all_candidates = []\<rparr> \<and>
         (fst (parse_region m v s e True w) =
            Inr \<lparr>chromosome_name = view_chromosome_name v, start_position = s, end_position = e,
                 all_candidates = []\<rparr> \<or>
          (\<exists>err. fs_error err \<and> fst (parse_region m v s e True w) = Inl err)) \<and>
         calls_by w (snd (parse_region m v s e j w)) =
           [CallGetReads (view_chromosome_name v) s e,
            CallCandidateFinder (view_chromosome_name v) s e]"
proof -
  let ?c = "view_chromosome_name v"
  let ?w2 = "logc (CallCandidateFinder ?c s e) (logc (CallGetReads ?c s e) w)"
  let ?init = "AllCandidatesInRegion_init ?c s e"
  have a: "fst (parse_region m v s e False w) = Inr ?init"
    by (simp add: parse_region_unfold [OF reads wins])
  obtain x r w4 where wj: "write_json m v s e ?init ?w2 = (x, r, w4)"
    by (cases "write_json m v s e ?init ?w2")
  from write_json_region [of m v s e ?init ?w2] wj have r: "r = ?init" by simp
  have rj: "\<exists>jv. reprJSON m ?init = Inr jv"
    by (simp add: reprJSON_def AllCandidatesInRegion_init_def)
  have b: "fst (parse_region m v s e True w) = Inr ?init \<or>
           (\<exists>err. fs_error err \<and> fst (parse_region m v s e True w) = Inl err)"
  proof (cases x)
    case (Inl err)
    with write_json_error [of m v s e ?init ?w2 err] wj rj have "fs_error err" by auto
    then show ?thesis using Inl wj by (simp add: parse_region_unfold [OF reads wins])
  next
    case (Inr u)
    then show ?thesis using wj r by (simp add: parse_region_unfold [OF reads wins])
  qed
  from write_json_frame [of m v s e ?init ?w2] wj have c4: "calls w4 = calls ?w2" by simp
  have c: "calls_by w (snd (parse_region m v s e j w)) =
             [CallGetReads ?c s e, CallCandidateFinder ?c s e]"
    using wj c4
    by (cases j; cases x) (simp_all add: parse_region_unfold [OF reads wins] calls_by_def)
  show ?thesis using a b c by (simp add: AllCandidatesInRegion_init_def)
qed

text \<open>A region without windows.\<close>

theorem parse_region_no_windows_witness:
  "fst (parse_region (sample_modules 10 [])
          \<lparr>bam_handler = (), fasta_handler = (), output_dir = ''out/'',
           view_chromosome_name = ''3''\<rparr> 0 100 False (sample_world {''out''})) =
     Inr \<lparr>chromosome_name = ''3'', start_position = 0, end_position = 100, all_candidates = []\<rparr> \<and>
   calls_by (sample_world {''out''})
     (snd (parse_region (sample_modules 10 [])
          \<lparr>bam_handler = (), fasta_handler = (), output_dir = ''out/'',
           view_chromosome_name = ''3''\<rparr> 0 100 True (sample_world {''out''}))) =
     [CallGetReads ''3'' 0 100, CallCandidateFinder ''3'' 0 100]"
proof -
  let ?m = "sample_modules 10 []"
  let ?v = "\<lparr>bam_handler = (), fasta_handler = (), output_dir = ''out/'',
             view_chromosome_name = ''3''\<rparr>"
  have h1: "get_reads ?m (bam_handler ?v) (view_chromosome_name ?v) 0 100 = Inr ()"
    and h2: "CandidateFinder ?m () (fasta_handler ?v) (view_chromosome_name ?v) 0 100 = Inr []"
    by (simp_all add: sample_modules_def)
  note t = parse_region_no_windows [OF h1 h2, where w = "sample_world {''out''}"]
  from t [where j = False, THEN conjunct1] have a: "fst (parse_region ?m ?v 0 100 False (sample_world {''out''})) =
     Inr \<lparr>chromosome_name = ''3'', start_position = 0, end_position = 100, all_candidates = []\<rparr>"
    by simp
  from t [where j = True, THEN conjunct2, THEN conjunct2] have b: "calls_by (sample_world {''out''})
     (snd (parse_region ?m ?v 0 100 True (sample_world {''out''}))) =
     [CallGetReads ''3'' 0 100, CallCandidateFinder ''3'' 0 100]" by simp
  show ?thesis using a b by simp
qed

subsection \<open>The JSON file\<close>

text \<open>
  C5. \<open>write_json\<close> hands the region object back as it received it, whether the write
  succeeds or fails: chromosome name, start, end and candidate list are the same before
  and after. A run of \<open>parse_region\<close> with JSON output that ends normally ends with the
  region object that the same run without JSON output gives.
\<close>

theorem write_json_leaves_region:
  "fst (snd (write_json m v s e r w)) = r \<and>
   (\<forall>r'. fst (parse_region m v s e True w) = Inr r' \<longrightarrow>
          fst (parse_region m v s e False w) = Inr r')"
proof -
  have a: "fst (snd (write_json m v s e r w)) = r" by (rule write_json_region)
  have b: "fst (parse_region m v s e False w) = Inr r'"
    if ok: "fst (parse_region m v s e True w) = Inr r'" for r'
  proof -
    from ok obtain reads where
      reads: "get_reads m (bam_handler v) (view_chromosome_name v) s e = Inr reads"
      by (cases "get_reads m (bam_handler v) (view_chromosome_name v) s e")
         (simp_all add: parse_region_def Let_def)
    from ok reads obtain windows where
      wins: "CandidateFinder m reads (fasta_handler v) (view_chromosome_name v) s e = Inr windows"
      by (cases "CandidateFinder m reads (fasta_handler v) (view_chromosome_name v) s e")
         (simp_all add: parse_region_def Let_def)
    from parse_region_result [OF reads wins ok]
    show ?thesis
      by (cases "parse_windows m v windows
                   (AllCandidatesInRegion_init (view_chromosome_name v) s e)
                   (logc (CallCandidateFinder (view_chromosome_name v) s e)
                      (logc (CallGetReads (view_chromosome_name v) s e) w))")
         (simp add: parse_region_unfold [OF reads wins])
  qed
  show ?thesis using a b by blast
qed

text \<open>A region with one candidate list written, and a region parsed with and without output.\<close>

theorem write_json_leaves_region_witness:
  "fst (snd (write_json (sample_modules 10 [])
          \<lparr>bam_handler = (), fasta_handler = (), output_dir = ''out/'',
           view_chromosome_name = ''3''\<rparr> 0 100
          \<lparr>chromosome_name = ''3'', start_position = 0, end_position = 100,
           all_candidates = [(''3'', 5, 7)]\<rparr> (sample_world {''out''}))) =
     \<lparr>chromosome_name = ''3'', start_position = 0, end_position = 100,
      all_candidates = [(''3'', 5, 7)]\<rparr> \<and>
   fst (parse_region (sample_modules 10 [(''3'', 5, 7), (''3'', 20, 20)])
          \<lparr>bam_handler = (), fasta_handler = (), output_dir = ''out/'',
           view_chromosome_name = ''3''\<rparr> 0 100 False (sample_world {''out''})) =
     Inr \<lparr>chromosome_name = ''3'', start_position = 0, end_position = 100,
          all_candidates = [(''3'', 5, 7), (''3'', 20, 20)]\<rparr>"
proof -
  note a = write_json_leaves_region [
      where m = "sample_modules 10 []" and s = 0 and e = 100 and w = "sample_world {''out''}"
        and v = "\<lparr>bam_handler = (), fasta_handler = (), output_dir = ''out/'',
                   view_chromosome_name = ''3''\<rparr>"
        and r = "\<lparr>chromosome_name = ''3'', start_position = 0, end_position = 100,
                   all_candidates = [(''3'', 5, 7)]\<rparr>", THEN conjunct1]
  note b = write_json_leaves_region [THEN conjunct2, rule_format, OF sample_parse_region_json]
  show ?thesis using a b by simp
qed

text \<open>
  C6. When \<open>write_json\<close> succeeds, the one file it creates or replaces is
  \<open>Candidates_<chromosome>_<start>_<end>.json\<close> inside \<open>json_output/\<close> of the output
  directory, a name made of the chromosome name and the two bounds and of nothing else.
  The text written has the four keys of the region in ascending order,
  \<open>all_candidates\<close>, \<open>chromosome_name\<close>, \<open>end_position\<close>, \<open>start_position\<close>, each on a line
  of its own, indented by four spaces and followed by its value. Below the top, the text
  of every dictionary lists its entries in ascending order of their keys, and the text of
  every list keeps the order of the list.
\<close>

theorem write_json_name_and_key_order:
  assumes "fst (write_json m v s e r w) = Inr ()"
  shows "(\<exists>js. candidates_json m (all_candidates r) = Inr js \<and>
           files (snd (snd (write_json m v s e r w))) =
             (files w)(output_dir v @ ''json_output/'' @ ''Candidates_'' @ view_chromosome_name v
                         @ ''_'' @ str_int s @ ''_'' @ str_int e @ ''.json'' \<mapsto>
               ''{'' @ CHR 0x0A # ''    '' @ quoted ''all_candidates'' @ '': ''
                 @ encode 1 (sort_keys_json (JArr js)) @ '','' @
               CHR 0x0A # ''    '' @ quoted ''chromosome_name'' @ '': ''
                 @ encode_string (chromosome_name r) @ '','' @
               CHR 0x0A # ''    '' @ quoted ''end_position'' @ '': ''
                 @ str_int (end_position r) @ '','' @
               CHR 0x0A # ''    '' @ quoted ''start_position'' @ '': ''
                 @ str_int (start_position r) @
               CHR 0x0A # ''}'')) \<and>
         (\<forall>level kvs. kvs \<noteq> [] \<longrightarrow>
            sorted (map fst (sort_key fst kvs)) \<and>
            encode level (sort_keys_json (JObj kvs)) =
              ''{'' @ newline_indent (level + 1)
                @ join_with (CHR '','' # newline_indent (level + 1))
                    (map (\<lambda>kv. encode_string (fst kv) @ '': ''
                             @ encode (level + 1) (sort_keys_json (snd kv))) (sort_key fst kvs))
                @ newline_indent level @ ''}'') \<and>
         (\<forall>level xs. xs \<noteq> [] \<longrightarrow>
            encode level (sort_keys_json (JArr xs)) =
              ''['' @ newline_indent (level + 1)
                @ join_with (CHR '','' # newline_indent (level + 1))
                    (map (\<lambda>x. encode (level + 1) (sort_keys_json x)) xs)
                @ newline_indent level @ '']'')"
proof -
  from write_json_ok [OF assms] obtain j where
    j: "reprJSON m r = Inr j"
       "files (snd (snd (write_json m v s e r w))) =
             (files w)(output_dir v @ ''json_output/'' @ json_file_name (view_chromosome_name v) s e
                         \<mapsto> dumps j)" by blast
  from dumps_reprJSON [OF j(1)] obtain js where
    js: "candidates_json m (all_candidates r) = Inr js"
    and doc: "dumps j =
             ''{'' @ CHR 0x0A # ''    '' @ quoted ''all_candidates'' @ '': ''
               @ encode 1 (sort_keys_json (JArr js)) @ '','' @
             CHR 0x0A # ''    '' @ quoted ''chromosome_name'' @ '': ''
               @ encode_string (chromosome_name r) @ '','' @
             CHR 0x0A # ''    '' @ quoted ''end_position'' @ '': ''
               @ str_int (end_position r) @ '','' @
             CHR 0x0A # ''    '' @ quoted ''start_position'' @ '': ''
               @ str_int (start_position r) @
             CHR 0x0A # ''}''" by blast
  have n: "json_file_name (view_chromosome_name v) s e =
             ''Candidates_'' @ view_chromosome_name v @ ''_'' @ str_int s @ ''_'' @ str_int e
               @ ''.json''" by (simp add: json_file_name_def)
  have A: "\<exists>js. candidates_json m (all_candidates r) = Inr js \<and>
           files (snd (snd (write_json m v s e r w))) =
             (files w)(output_dir v @ ''json_output/'' @ ''Candidates_'' @ view_chromosome_name v
                         @ ''_'' @ str_int s @ ''_'' @ str_int e @ ''.json'' \<mapsto>
               ''{'' @ CHR 0x0A # ''    '' @ quoted ''all_candidates'' @ '': ''
                 @ encode 1 (sort_keys_json (JArr js)) @ '','' @
               CHR 0x0A # ''    '' @ quoted ''chromosome_name'' @ '': ''
                 @ encode_string (chromosome_name r) @ '','' @
               CHR 0x0A # ''    '' @ quoted ''end_position'' @ '': ''
                 @ str_int (end_position r) @ '','' @
               CHR 0x0A # ''    '' @ quoted ''start_position'' @ '': ''
                 @ str_int (start_position r) @
               CHR 0x0A # ''}'')"
    using js j(2) [unfolded doc n] by (intro exI [of _ js] conjI)
  have B: "\<forall>level kvs. kvs \<noteq> [] \<longrightarrow>
            sorted (map fst (sort_key fst kvs)) \<and>
            encode level (sort_keys_json (JObj kvs)) =
              ''{'' @ newline_indent (level + 1)
                @ join_with (CHR '','' # newline_indent (level + 1))
                    (map (\<lambda>kv. encode_string (fst kv) @ '': ''
                             @ encode (level + 1) (sort_keys_json (snd kv))) (sort_key fst kvs))
                @ newline_indent level @ ''}''"
    using encode_sorted_dict by (simp del: encode.simps sort_keys_json.simps)
  have C: "\<forall>level xs. xs \<noteq> [] \<longrightarrow>
            encode level (sort_keys_json (JArr xs)) =
              ''['' @ newline_indent (level + 1)
                @ join_with (CHR '','' # newline_indent (level + 1))
                    (map (\<lambda>x. encode (level + 1) (sort_keys_json x)) xs)
                @ newline_indent level @ '']''"
    using encode_sorted_list by (simp del: encode.simps sort_keys_json.simps)
  show ?thesis by (intro conjI A B C)
qed

text \<open>Chromosome 3 from 0 to 100 gives \<open>Candidates_3_0_100.json\<close>, with this text.\<close>

theorem write_json_name_and_key_order_witness:
  "files (snd (snd (write_json (sample_modules 10 [])
          \<lparr>bam_handler = (), fasta_handler = (), output_dir = ''out/'',
           view_chromosome_name = ''3''\<rparr> 0 100
          \<lparr>chromosome_name = ''3'', start_position = 0, end_position = 100,
           all_candidates = [(''3'', 5, 7)]\<rparr> (sample_world {''out''})))) =
     [''out/json_output/Candidates_3_0_100.json'' \<mapsto>
        join_with [CHR 0x0A]
          [''{'',
           ''    '' @ quoted ''all_candidates'' @ '': ['',
           ''        {'',
           ''            '' @ quoted ''chromosome_name'' @ '': '' @ quoted ''3'' @ '','',
           ''            '' @ quoted ''window_end'' @ '': 7,'',
           ''            '' @ quoted ''window_start'' @ '': 5'',
           ''        }'',
           ''    ],'',
           ''    '' @ quoted ''chromosome_name'' @ '': '' @ quoted ''3'' @ '','',
           ''    '' @ quoted ''end_position'' @ '': 100,'',
           ''    '' @ quoted ''start_position'' @ '': 0'',
           ''}'']]"
proof -
  let ?m = "sample_modules 10 []"
  let ?r = "\<lparr>chromosome_name = ''3'', start_position = 0, end_position = 100,
             all_candidates = [(''3'', 5::int, 7::int)]\<rparr>"
  have cj: "candidates_json ?m (all_candidates ?r) =
              Inr [JObj [(''window_start'', JInt 5), (''window_end'', JInt 7),
                         (''chromosome_name'', JStr ''3'')]]"
    by (simp add: sample_modules_def)
  from write_json_name_and_key_order [OF sample_write_json, THEN conjunct1] obtain js where
    js: "candidates_json ?m (all_candidates ?r) = Inr js"
    and f: "files (snd (snd (write_json ?m
          \<lparr>bam_handler = (), fasta_handler = (), output_dir = ''out/'',
           view_chromosome_name = ''3''\<rparr> 0 100 ?r (sample_world {''out''})))) =
       (files (sample_world {''out''}))(output_dir \<lparr>bam_handler = (), fasta_handler = (),
           output_dir = ''out/'', view_chromosome_name = ''3''\<rparr> @ ''json_output/'' @
         ''Candidates_'' @ view_chromosome_name \<lparr>bam_handler = (), fasta_handler = (),
           output_dir = ''out/'', view_chromosome_name = ''3''\<rparr> @ ''_'' @ str_int 0 @ ''_''
           @ str_int 100 @ ''.json'' \<mapsto>
               ''{'' @ CHR 0x0A # ''    '' @ quoted ''all_candidates'' @ '': ''
                 @ encode 1 (sort_keys_json (JArr js)) @ '','' @
               CHR 0x0A # ''    '' @ quoted ''chromosome_name'' @ '': ''
                 @ encode_string (chromosome_name ?r) @ '','' @
               CHR 0x0A # ''    '' @ quoted ''end_position'' @ '': ''
                 @ str_int (end_position ?r) @ '','' @
               CHR 0x0A # ''    '' @ quoted ''start_position'' @ '': ''
                 @ str_int (start_position ?r) @
               CHR 0x0A # ''}'')"
    by (elim exE conjE)
  from js cj have jv: "js = [JObj [(''window_start'', JInt 5), (''window_end'', JInt 7),
                         (''chromosome_name'', JStr ''3'')]]" by simp
  have arr: "encode 1 (sort_keys_json (JArr js)) =
               ''['' @ CHR 0x0A # ''        {'' @
               CHR 0x0A # ''            '' @ quoted ''chromosome_name'' @ '': '' @ quoted ''3'' @ '','' @
               CHR 0x0A # ''            '' @ quoted ''window_end'' @ '': 7,'' @
               CHR 0x0A # ''            '' @ quoted ''window_start'' @ '': 5'' @
               CHR 0x0A # ''        }'' @
               CHR 0x0A # ''    ]''"
    unfolding jv
    by (simp add: newline_indent_samples str_int_samples encode_string_def escape_char_def
        quoted_def numeral_eq_Suc newline_indent_def)
  have c3: "encode_string ''3'' = quoted ''3''"
    by (simp add: encode_string_def escape_char_def quoted_def)
  show ?thesis
    unfolding f arr
    by (simp add: str_int_samples sample_world_def c3)
qed

text \<open>
  C10, as the claim states it, fails: for a chromosome name that contains the path
  separator the file would lie in a directory below \<open>json_output/\<close> that nothing
  creates, and the first write into a fresh output directory ends in an error.
\<close>

theorem write_json_separator_counterexample:
  "fst (write_json (sample_modules 10 [])
          \<lparr>bam_handler = (), fasta_handler = (), output_dir = ''out/'',
           view_chromosome_name = ''a/b''\<rparr> 0 100
          \<lparr>chromosome_name = ''a/b'', start_position = 0, end_position = 100,
           all_candidates = []\<rparr> (sample_world {''out''})) =
     Inl (FileNotFoundError ''out/json_output/Candidates_a/b_0_100.json'')"
  by (simp add: write_json_def Let_def fs_simps sample_simps json_file_name_def
      str_int_samples)

text \<open>
  C10, amended. Let the output directory name end in the separator and exist, with nothing
  in it, let the chromosome name contain no separator, let the file system accept the
  path of the file (no NUL character in it, no component longer than the longest name
  allowed, the whole shorter than the longest path allowed), and let the candidate lists
  be encodable. Then \<open>write_json\<close> succeeds: it creates the directory \<open>json_output\<close> inside
  the output directory and writes the document to
  \<open>output_dir + 'json_output/Candidates_' + chromosome + '_' + start + '_' + end + '.json'\<close>.
\<close>

theorem write_json_fresh_directory:
  assumes slash: "output_dir v \<noteq> [] \<and> last (output_dir v) = CHR ''/''"
    and outd: "dir_exists w (strip_slash (output_dir v))"
    and fresh: "\<forall>p \<in> dirs w \<union> dom (files w). take (length (output_dir v)) p \<noteq> output_dir v"
    and chr: "CHR ''/'' \<notin> set (view_chromosome_name v)"
    and name: "path_error w (output_dir v @ ''json_output/Candidates_'' @ view_chromosome_name v
                 @ ''_'' @ str_int s @ ''_'' @ str_int e @ ''.json'') = None"
    and enc: "reprJSON m r = Inr j"
  shows "fst (write_json m v s e r w) = Inr () \<and>
         dirs (snd (snd (write_json m v s e r w))) = insert (output_dir v @ ''json_output'') (dirs w) \<and>
         dirname (output_dir v @ ''json_output/'') = strip_slash (output_dir v) \<and>
         files (snd (snd (write_json m v s e r w))) =
           (files w)(output_dir v @ ''json_output/Candidates_'' @ view_chromosome_name v @ ''_''
                       @ str_int s @ ''_'' @ str_int e @ ''.json'' \<mapsto> dumps j)"
proof -
  let ?od = "output_dir v"
  let ?d = "?od @ ''json_output/''"
  let ?n = "json_file_name (view_chromosome_name v) s e"
  let ?p = "?d @ ?n"
  have under: "?od @ x \<notin> dirs w \<and> ?od @ x \<notin> dom (files w)" for x
  proof -
    have "take (length ?od) (?od @ x) = ?od" by simp
    then have "?od @ x \<notin> dirs w \<union> dom (files w)" using fresh by blast
    then show ?thesis by simp
  qed
  have sd: "strip_slash ?d = ?od @ ''json_output''" by (rule strip_slash_json_output)
  have dn: "dirname ?d = strip_slash ?od"
    by (rule dirname_append [OF slash [THEN conjunct1] slash [THEN conjunct2] _ _ sd]) simp_all
  have okp: "path_error w ?p = None" using name by (simp add: json_file_name_def)
  have "path_error w ((?od @ ''json_output'') @ ''/'') = None"
  proof (rule path_error_directory)
    show "path_error w ((?od @ ''json_output'') @ CHR ''/'' # ?n) = None" using okp by simp
  qed
  then have okd: "path_error w ?d = None" by simp
  have ne: "\<not> path_exists w ?d"
    using under [of "''json_output''"] under [of "''json_output/''"]
    by (simp add: path_exists_def dir_exists_def sd)
  let ?w1 = "w\<lparr>dirs := insert (?od @ ''json_output'') (dirs w)\<rparr>"
  have mk: "mkdir w ?d = Inr ?w1"
    using ne under [of "''json_output''"] outd okd by (simp add: mkdir_def sd dn)
  have pl: "?p \<noteq> [] \<and> last ?p \<noteq> CHR ''/''"
    using json_file_name_last [of "view_chromosome_name v" s e] by simp
  have sp: "strip_slash ?p = ?p" using pl by (simp add: strip_slash_id)
  have sp': "strip_slash ?p = ?d @ ?n" using sp by simp
  have dp: "dirname ?p = ?od @ ''json_output''"
  proof -
    have "dirname ?p = strip_slash ?d"
    proof (rule dirname_append [where name = ?n])
      show "?d \<noteq> []" by simp
      show "last ?d = CHR ''/''" by simp
      show "?n \<noteq> []" using json_file_name_last [of "view_chromosome_name v" s e] by simp
      show "CHR ''/'' \<notin> set ?n" by (rule json_file_name_no_slash [OF chr])
      show "strip_slash ?p = ?d @ ?n" using sp by simp
    qed
    then show ?thesis by (simp only: sd)
  qed
  have pn: "?p \<notin> dirs ?w1"
    using under [of "''json_output/'' @ ?n"] by simp
  have okp1: "path_error ?w1 ?p = None" using okp by (simp only: path_error_dirs_update)
  have op: "open_w ?w1 ?p = Inr (?w1\<lparr>files := (files w)(?p \<mapsto> [])\<rparr>)"
    using pl sp pn dp okp1 by (simp add: open_w_def dir_exists_def)
  have res: "write_json m v s e r w =
               (Inr (), r, file_write (?w1\<lparr>files := (files w)(?p \<mapsto> [])\<rparr>) ?p (dumps j))"
    using ne mk op enc by (simp add: write_json_def Let_def)
  show ?thesis
    by (simp add: res dn file_write_def json_file_name_def)
qed

text \<open>The first write into the empty directory \<open>out/\<close>.\<close>

theorem write_json_fresh_directory_witness:
  "fst (write_json (sample_modules 10 [])
          \<lparr>bam_handler = (), fasta_handler = (), output_dir = ''out/'',
           view_chromosome_name = ''3''\<rparr> 0 100
          \<lparr>chromosome_name = ''3'', start_position = 0, end_position = 100,
           all_candidates = []\<rparr> (sample_world {''out''})) = Inr () \<and>
   dirs (snd (snd (write_json (sample_modules 10 [])
          \<lparr>bam_handler = (), fasta_handler = (), output_dir = ''out/'',
           view_chromosome_name = ''3''\<rparr> 0 100
          \<lparr>chromosome_name = ''3'', start_position = 0, end_position = 100,
           all_candidates = []\<rparr> (sample_world {''out''})))) = {''out/json_output'', ''out''} \<and>
   files (snd (snd (write_json (sample_modules 10 [])
          \<lparr>bam_handler = (), fasta_handler = (), output_dir = ''out/'',
           view_chromosome_name = ''3''\<rparr> 0 100
          \<lparr>chromosome_name = ''3'', start_position = 0, end_position = 100,
           all_candidates = []\<rparr> (sample_world {''out''})))) =
     [''out/json_output/Candidates_3_0_100.json'' \<mapsto>
        dumps (JObj [(''chromosome_name'', JStr ''3''), (''start_position'', JInt 0),
                     (''end_position'', JInt 100), (''all_candidates'', JArr [])])]"
proof -
  let ?v = "\<lparr>bam_handler = (), fasta_handler = (), output_dir = ''out/'',
             view_chromosome_name = ''3''\<rparr>"
  let ?w = "sample_world {''out''}"
  let ?r = "\<lparr>chromosome_name = ''3'', start_position = 0, end_position = 100,
             all_candidates = [] :: window list\<rparr>"
  have h1: "output_dir ?v \<noteq> [] \<and> last (output_dir ?v) = CHR ''/''" by simp
  have h2: "dir_exists ?w (strip_slash (output_dir ?v))"
    by (simp add: dir_exists_def strip_slash_def sample_world_def)
  have h3: "\<forall>p \<in> dirs ?w \<union> dom (files ?w). take (length (output_dir ?v)) p \<noteq> output_dir ?v"
    by (simp add: sample_world_def)
  have h4: "CHR ''/'' \<notin> set (view_chromosome_name ?v)" by simp
  have h5: "reprJSON (sample_modules 10 []) ?r =
              Inr (JObj [(''chromosome_name'', JStr ''3''), (''start_position'', JInt 0),
                         (''end_position'', JInt 100), (''all_candidates'', JArr [])])"
    by (simp add: reprJSON_def)
  have hn: "path_error ?w (output_dir ?v @ ''json_output/Candidates_'' @ view_chromosome_name ?v
                 @ ''_'' @ str_int 0 @ ''_'' @ str_int 100 @ ''.json'') = None"
    by (simp add: path_error_def str_int_samples sample_world_def)
  note t = write_json_fresh_directory [OF h1 h2 h3 h4 hn h5]
  from t [THEN conjunct1] t [THEN conjunct2, THEN conjunct1]
       t [THEN conjunct2, THEN conjunct2, THEN conjunct2]
  show ?thesis by (simp add: str_int_samples sample_world_def)
qed

subsection \<open>The test run\<close>

text \<open>
  C8. With the test flag set, and the output directory and the two handlers available,
  the main program is one call of \<open>parse_region\<close> from 100000 to 200000 on the configured
  chromosome: its result and final state are those of that call. No process is started,
  and after the two constructions of the view the calls are one request for the reads of
  that range followed only by calls of the work on that region, so \<open>do_parallel\<close>, which
  begins by opening the reference and asking for the chromosome length, has not run.
\<close>

theorem main_test_mode:
  assumes test: "flag_test F"
    and od: "flag_output_dir F \<noteq> []"
    and out: "out_dir = (if last (flag_output_dir F) \<noteq> CHR ''/'' then flag_output_dir F @ ''/''
                         else flag_output_dir F)"
    and dir_ok: "(if \<not> path_exists w out_dir then mkdir w out_dir else Inr w) = Inr w1"
    and bam: "BamHandler m (flag_bam F) = Inr b"
    and ref: "FastaHandler m (flag_ref F) = Inr f"
    and view: "view = \<lparr>bam_handler = b, fasta_handler = f, output_dir = out_dir,
                       view_chromosome_name = flag_chromosome_name F\<rparr>"
    and w3: "w3 = logc (CallFastaHandler (flag_ref F)) (logc (CallBamHandler (flag_bam F))
                    (logc (CallFastaHandler (flag_ref F)) (logc (CallBamHandler (flag_bam F)) w1)))"
  shows "fst (main m F w) = map_sum id Some (fst (parse_region m view 100000 200000 (flag_json F) w3)) \<and>
         snd (main m F w) = snd (parse_region m view 100000 200000 (flag_json F) w3) \<and>
         started (snd (main m F w)) = started w \<and>
         (\<exists>cs. calls_by w (snd (main m F w)) =
                  [CallBamHandler (flag_bam F), CallFastaHandler (flag_ref F),
                   CallBamHandler (flag_bam F), CallFastaHandler (flag_ref F),
                   CallGetReads (flag_chromosome_name F) 100000 200000] @ cs \<and>
                list_all region_call cs)"
proof -
  let ?pr = "parse_region m view 100000 200000 (flag_json F) w3"
  have vi: "View_init m (flag_chromosome_name F) (flag_bam F) (flag_ref F) out_dir w' =
              (Inr view, logc (CallFastaHandler (flag_ref F)) (logc (CallBamHandler (flag_bam F)) w'))"
    for w' by (simp add: View_init_ok [OF bam ref] view)
  have mn: "main m F w = (case ?pr of (Inl e, w4) \<Rightarrow> (Inl e, w4) | (Inr r, w4) \<Rightarrow> (Inr (Some r), w4))"
    using test od dir_ok
    by (simp add: main_def Let_def out [symmetric] vi View_test_def w3)
  obtain res w4 where pr: "?pr = (res, w4)" by (cases ?pr)
  have a: "fst (main m F w) = map_sum id Some (fst ?pr)"
    and b: "snd (main m F w) = snd ?pr"
    by (cases res; simp add: mn pr)+
  have w1f: "started w1 = started w \<and> calls w1 = calls w"
    using dir_ok mkdir_fields [of w out_dir w1] by (auto split: if_splits)
  have c: "started (snd (main m F w)) = started w"
    by (simp add: b parse_region_started w3 w1f)
  from parse_region_calls_any [of m view 100000 200000 "flag_json F" w3] obtain cs where
    cs: "calls (snd ?pr) = calls w3 @ CallGetReads (view_chromosome_name view) 100000 200000 # cs"
        "list_all region_call cs" by blast
  have d: "calls_by w (snd (main m F w)) =
                  [CallBamHandler (flag_bam F), CallFastaHandler (flag_ref F),
                   CallBamHandler (flag_bam F), CallFastaHandler (flag_ref F),
                   CallGetReads (flag_chromosome_name F) 100000 200000] @ cs"
  proof -
    have "calls (snd (main m F w)) =
            calls w3 @ CallGetReads (view_chromosome_name view) 100000 200000 # cs"
      by (simp only: b cs(1))
    also have "calls w3 = calls w @ [CallBamHandler (flag_bam F), CallFastaHandler (flag_ref F),
                   CallBamHandler (flag_bam F), CallFastaHandler (flag_ref F)]"
      by (simp add: w3 w1f)
    finally show ?thesis by (simp add: calls_by_def view)
  qed
  show ?thesis using a b c d cs(2) by blast
qed

text \<open>A test run on chromosome 3 with one window.\<close>

theorem main_test_mode_witness:
  "fst (main (sample_modules 10 [(''3'', 150000, 150000)])
          \<lparr>flag_ref = ''r.fa'', flag_bam = ''a.bam'', flag_chromosome_name = ''3'',
           flag_max_threads = 5, flag_test = True, flag_json = False,
           flag_output_dir = ''out''\<rparr> (sample_world {})) =
     Inr (Some \<lparr>chromosome_name = ''3'', start_position = 100000, end_position = 200000,
                all_candidates = [(''3'', 150000, 150000)]\<rparr>) \<and>
   started (snd (main (sample_modules 10 [(''3'', 150000, 150000)])
          \<lparr>flag_ref = ''r.fa'', flag_bam = ''a.bam'', flag_chromosome_name = ''3'',
           flag_max_threads = 5, flag_test = True, flag_json = False,
           flag_output_dir = ''out''\<rparr> (sample_world {}))) = []"
proof -
  let ?m = "sample_modules 10 [(''3'', 150000, 150000)]"
  let ?F = "\<lparr>flag_ref = ''r.fa'', flag_bam = ''a.bam'', flag_chromosome_name = ''3'',
             flag_max_threads = 5, flag_test = True, flag_json = False,
             flag_output_dir = ''out''\<rparr>"
  let ?w = "sample_world {}"
  let ?w1 = "(sample_world {})\<lparr>dirs := {''out''}\<rparr>"
  have h1: "flag_test ?F" and h2: "flag_output_dir ?F \<noteq> []" by simp_all
  have h3: "''out/'' = (if last (flag_output_dir ?F) \<noteq> CHR ''/'' then flag_output_dir ?F @ ''/''
                         else flag_output_dir ?F)" by simp
  have h4: "(if \<not> path_exists ?w ''out/'' then mkdir ?w ''out/'' else Inr ?w) = Inr ?w1"
    by (simp add: fs_simps sample_world_def)
  have h5: "BamHandler ?m (flag_bam ?F) = Inr ()" and h6: "FastaHandler ?m (flag_ref ?F) = Inr ()"
    by (simp_all add: sample_modules_def)
  note t = main_test_mode [OF h1 h2 h3 h4 h5 h6 refl refl]
  have pr: "fst (parse_region ?m
              \<lparr>bam_handler = (), fasta_handler = (), output_dir = ''out/'',
               view_chromosome_name = flag_chromosome_name ?F\<rparr> 100000 200000 (flag_json ?F)
              (logc (CallFastaHandler (flag_ref ?F)) (logc (CallBamHandler (flag_bam ?F))
                 (logc (CallFastaHandler (flag_ref ?F)) (logc (CallBamHandler (flag_bam ?F)) ?w1))))) =
            Inr \<lparr>chromosome_name = ''3'', start_position = 100000, end_position = 200000,
                 all_candidates = [(''3'', 150000, 150000)]\<rparr>"
    by (simp add: parse_region_def Let_def sample_simps AllCandidatesInRegion_init_def
        add_candidate_to_list_def)
  from t [THEN conjunct1] pr have a: "fst (main ?m ?F ?w) =
     Inr (Some \<lparr>chromosome_name = ''3'', start_position = 100000, end_position = 200000,
                all_candidates = [(''3'', 150000, 150000)]\<rparr>)" by simp
  from t [THEN conjunct2, THEN conjunct2, THEN conjunct1]
  have b: "started (snd (main ?m ?F ?w)) = []" by (simp add: sample_world_def)
  show ?thesis using a b by simp
qed

end
